theory Spec2Isabelle
  imports Complex_Main
begin

section \<open>Front-page downloader (patent-first-page-downloader.py)\<close>

text \<open>
  Python \<open>bytes\<close> and header strings (decoded by the HTTP client as Latin-1, one
  character per byte) are both \<open>string\<close>: a list of 8-bit characters.
  File-system calls are taken to succeed, and the output directory holds regular
  files only: the files are a map from a path to the content stored there.
\<close>

subsection \<open>RateLimiter\<close>

record RateLimiter =
  min_interval :: real
  last_ts :: real

text \<open>
  Python floats are IEEE doubles: an arithmetic operation gives the exact result
  rounded. The rounding is kept explicit. Numbers are reals, and an operation that
  rounds takes as a further argument the error the rounding adds to the exact result;
  the error is the environment's, like the readings of the clock.
\<close>

text \<open>
  \<open>RateLimiter.__init__\<close>: the rate is clamped from below at 0.0001; \<open>err\<close> is the
  rounding error of the quotient (the literal \<open>0.0001\<close> is itself a rounded number).
  The field \<open>last\<close> of the source is \<open>last_ts\<close> here.
\<close>

definition RateLimiter_init :: "real \<Rightarrow> real \<Rightarrow> RateLimiter" where
  "RateLimiter_init rate_per_sec err =
     \<lparr> min_interval = 1 / max rate_per_sec (1 / 10000) + err, last_ts = 0 \<rparr>"

text \<open>
  One call of \<open>wait\<close>, run under the lock. The clock is the environment's:
  \<open>now\<close> is what \<open>time.time()\<close> returns at the first reading; \<open>rnd\<close> is the rounding
  error of the two subtractions that compute \<open>wait_for\<close>; \<open>over\<close> is by how much the
  clock has moved beyond \<open>wait_for\<close> when \<open>time.sleep\<close> returns; \<open>lag\<close> is by how much
  it moves between the end of the sleep (or the test, when there is no sleep) and the
  second reading. \<open>time.time()\<close> is the wall clock, rounded to a double: it can be set
  back, and a reading can round down, so \<open>over\<close> and \<open>lag\<close> may be negative.
  The result is the limiter with the new timestamp, and that timestamp.
\<close>

definition wait :: "RateLimiter \<Rightarrow> real \<Rightarrow> real \<Rightarrow> real \<Rightarrow> real \<Rightarrow> RateLimiter \<times> real" where
  "wait rl now rnd over lag =
     (let wait_for = min_interval rl - (now - last_ts rl) + rnd;
          woke = (if wait_for > 0 then now + (wait_for + over) else now);
          stamp = woke + lag
      in (rl\<lparr>last_ts := stamp\<rparr>, stamp))"

text \<open>
  The lock serialises the callers, whatever their number: a run of the limiter is a
  sequence of calls, each described by the time \<open>idle\<close> by which the clock has moved
  between the previous call's timestamp and this call's first reading, its rounding
  error, its oversleep and its lag. \<open>run_waits\<close> returns the timestamps recorded, in
  order.
\<close>

record tick =
  idle :: real
  rnd :: real
  over :: real
  lag :: real

text \<open>
  The jitter of a call: by how much its environment falls short of an exact
  subtraction, a sleep that lasts what was asked and a clock that does not go back
  after it. It is zero when none of the three falls short.
\<close>

definition jitter :: "tick \<Rightarrow> real" where
  "jitter k = max 0 (- rnd k) + max 0 (- over k) + max 0 (- lag k)"

fun run_waits :: "RateLimiter \<Rightarrow> real \<Rightarrow> tick list \<Rightarrow> real list" where
  "run_waits rl clock [] = []"
| "run_waits rl clock (k # ks) =
     (case wait rl (clock + idle k) (rnd k) (over k) (lag k) of
        (rl', stamp) \<Rightarrow> stamp # run_waits rl' stamp ks)"

subsection \<open>Exceptions\<close>

datatype exn =
    HTTPError nat
  | ConnectionError
  | KeyError
  | ValueError
  | OSError
  | RuntimeError

text \<open>\<open>HTTPError\<close> and \<open>ConnectionError\<close> are subclasses of \<open>requests.RequestException\<close>.\<close>

fun is_RequestException :: "exn \<Rightarrow> bool" where
  "is_RequestException (HTTPError _) = True"
| "is_RequestException ConnectionError = True"
| "is_RequestException KeyError = False"
| "is_RequestException ValueError = False"
| "is_RequestException OSError = False"
| "is_RequestException RuntimeError = False"

subsection \<open>The endpoints and the process state\<close>

text \<open>
  A reply of the authentication endpoint: a response with its status and the
  \<open>access_token\<close> field of its JSON body (if it has one), or no response at all.
\<close>

datatype auth_reply =
    AuthResponse nat "string option"
  | AuthConnectionError

text \<open>
  A reply of the resource endpoint: status, the \<open>Retry-After\<close> header, the body;
  or \<open>session.get\<close> raises a \<open>RequestException\<close>.
\<close>

datatype get_reply =
    Response nat "string option" string
  | GetRaises

record DownloadTask =
  pub_number :: string
  kind :: string
  country :: string

text \<open>
  The state \<open>download_one\<close> works on: the module's \<open>_token\<close>, the files (and the
  list of the writes made to them, path and content, in order), the shared
  limiter and the clock, and the environment: what the two endpoints reply to their
  n-th request (the resource endpoint sees the URL and the \<open>Authorization\<close> header),
  what \<open>random.random()\<close> returns at its n-th call, and the sleeps made so far.
\<close>

record world =
  token :: "string option"
  files :: "string \<rightharpoonup> string"
  writes :: "(string \<times> string) list"
  rate_limiter :: RateLimiter
  clock :: real
  auth_env :: "nat \<Rightarrow> auth_reply"
  auth_calls :: nat
  get_env :: "nat \<Rightarrow> string \<Rightarrow> string \<Rightarrow> get_reply"
  get_calls :: nat
  random_env :: "nat \<Rightarrow> real"
  random_calls :: nat
  slept :: "real list"

text \<open>
  \<open>time.sleep\<close> and \<open>rate_limiter.wait()\<close> on this state, whose clock is exact: no
  rounding, no oversleep, no lag. \<open>time.sleep\<close> is taken to accept its argument: it
  raises \<open>OverflowError\<close> for a number of seconds beyond what the platform's timer
  holds, which only a \<open>Retry-After\<close> header of ten decimal digits or more can reach.
\<close>

definition time_sleep :: "real \<Rightarrow> world \<Rightarrow> world" where
  "time_sleep s w = w\<lparr>clock := clock w + max 0 s, slept := slept w @ [s]\<rparr>"

definition rate_limiter_wait :: "world \<Rightarrow> world" where
  "rate_limiter_wait w =
     (case wait (rate_limiter w) (clock w) 0 0 0 of
        (rl, stamp) \<Rightarrow> w\<lparr>rate_limiter := rl, clock := stamp\<rparr>)"

definition random_random :: "world \<Rightarrow> real \<times> world" where
  "random_random w = (random_env w (random_calls w), w\<lparr>random_calls := Suc (random_calls w)\<rparr>)"

subsection \<open>Token management\<close>

text \<open>
  \<open>_get_token_raw\<close>: \<open>raise_for_status\<close> raises for a status from 400 to 599;
  a body without \<open>access_token\<close> raises \<open>KeyError\<close>. The body of a reply that
  passes \<open>raise_for_status\<close> is taken to be a JSON object: what \<open>r.json()\<close> raises
  for another body depends on the version of the HTTP library, and is not modelled.
\<close>

definition get_token_raw :: "world \<Rightarrow> (exn + string) \<times> world" where
  "get_token_raw w =
     (let w' = w\<lparr>auth_calls := Suc (auth_calls w)\<rparr> in
      case auth_env w (auth_calls w) of
        AuthConnectionError \<Rightarrow> (Inl ConnectionError, w')
      | AuthResponse st tok \<Rightarrow>
          if 400 \<le> st \<and> st < 600 then (Inl (HTTPError st), w')
          else (case tok of None \<Rightarrow> (Inl KeyError, w') | Some t \<Rightarrow> (Inr t, w')))"

definition get_token_cached :: "world \<Rightarrow> (exn + string) \<times> world" where
  "get_token_cached w =
     (case token w of
        Some t \<Rightarrow> (Inr t, w)
      | None \<Rightarrow>
          (case get_token_raw w of
             (Inl e, w') \<Rightarrow> (Inl e, w')
           | (Inr t, w') \<Rightarrow> (Inr t, w'\<lparr>token := Some t\<rparr>)))"

definition refresh_token :: "world \<Rightarrow> (exn + unit) \<times> world" where
  "refresh_token w =
     (case get_token_raw w of
        (Inl e, w') \<Rightarrow> (Inl e, w')
      | (Inr t, w') \<Rightarrow> (Inr (), w'\<lparr>token := Some t\<rparr>))"

subsection \<open>Utilities\<close>

definition RETRY_STATUS :: "nat set" where
  "RETRY_STATUS = {429, 500, 502, 503, 504}"

text \<open>\<open>os.path.join\<close> on two components (POSIX): an absolute second component wins.\<close>

definition path_join :: "string \<Rightarrow> string \<Rightarrow> string" where
  "path_join a b =
     (if b \<noteq> [] \<and> hd b = CHR ''/'' then b
      else if a = [] \<or> last a = CHR ''/'' then a @ b
      else a @ ''/'' @ b)"

definition OUT_DIR :: string where
  "OUT_DIR = ''front_pages''"

definition out_path_for :: "DownloadTask \<Rightarrow> string" where
  "out_path_for task =
     path_join OUT_DIR (country task @ pub_number task @ kind task @ ''_page1.pdf'')"

definition IMG_URL :: "DownloadTask \<Rightarrow> string" where
  "IMG_URL task =
     ''https://ops.epo.org/3.2/rest-services/published-data/images/'' @ country task @ ''/''
       @ pub_number task @ ''/'' @ kind task @ ''/fullimage.pdf''"

definition startswith :: "string \<Rightarrow> string \<Rightarrow> bool" where
  "startswith s p = (take (length p) s = p)"

text \<open>
  \<open>str.isdigit\<close> on a Latin-1 string: the decimal digits and the superscript digits
  U+00B2, U+00B3 and U+00B9; false on the empty string.
\<close>

definition isdecimal_char :: "char \<Rightarrow> bool" where
  "isdecimal_char c = (48 \<le> (of_char c :: nat) \<and> (of_char c :: nat) \<le> 57)"

definition isdigit_char :: "char \<Rightarrow> bool" where
  "isdigit_char c =
     (isdecimal_char c \<or> (of_char c :: nat) = 178 \<or> (of_char c :: nat) = 179
        \<or> (of_char c :: nat) = 185)"

definition isdigit :: "string \<Rightarrow> bool" where
  "isdigit s = (s \<noteq> [] \<and> list_all isdigit_char s)"

text \<open>
  \<open>int(s)\<close> for a string that passed \<open>isdigit\<close> (so it has no sign, blank or
  underscore): the decimal value, or \<open>ValueError\<close> when a digit is not decimal.
  The string is taken to be within the length the interpreter converts: an interpreter
  with a limit on the digits of a decimal string (4300 by default from Python 3.11 on)
  raises \<open>ValueError\<close> beyond it as well.
\<close>

definition py_int :: "string \<Rightarrow> exn + nat" where
  "py_int s =
     (if s \<noteq> [] \<and> list_all isdecimal_char s
      then Inr (foldl (\<lambda>a c. 10 * a + ((of_char c :: nat) - 48)) 0 s)
      else Inl ValueError)"

subsection \<open>download_one\<close>

text \<open>The tuple \<open>download_one\<close> returns.\<close>

record result =
  r_task :: DownloadTask
  success :: bool
  status_str :: string
  http_status :: nat
  bytes_written :: nat
  out_path :: string

definition failed :: "DownloadTask \<Rightarrow> nat \<Rightarrow> string \<Rightarrow> result" where
  "failed task st out =
     \<lparr> r_task = task, success = False, status_str = ''failed'', http_status = st,
       bytes_written = 0, out_path = out \<rparr>"

definition downloaded :: "DownloadTask \<Rightarrow> nat \<Rightarrow> string \<Rightarrow> string \<Rightarrow> result" where
  "downloaded task st body out =
     \<lparr> r_task = task, success = True, status_str = ''downloaded'', http_status = st,
       bytes_written = length body, out_path = out \<rparr>"

definition skipped :: "DownloadTask \<Rightarrow> nat \<Rightarrow> string \<Rightarrow> result" where
  "skipped task sz out =
     \<lparr> r_task = task, success = True, status_str = ''skipped'', http_status = 200,
       bytes_written = sz, out_path = out \<rparr>"

text \<open>
  What one pass through the loop body does to the control flow: go on with the next
  attempt (with the \<open>Authorization\<close> header and \<open>http_status\<close> as they are now),
  return, or let an exception escape.
\<close>

datatype outcome =
    Continue string nat
  | Return result
  | Raise exn

definition backoff :: "nat \<Rightarrow> world \<Rightarrow> world" where
  "backoff attempt w =
     (case random_random w of
        (r, w') \<Rightarrow> time_sleep (min 60 (2 ^ (attempt - 1) + r)) w')"

text \<open>
  An exception raised inside the \<open>try\<close>: the handler of \<open>requests.RequestException\<close>
  sleeps and lets the loop go on; any other exception escapes.
\<close>

definition handle :: "exn \<Rightarrow> nat \<Rightarrow> string \<Rightarrow> nat \<Rightarrow> world \<Rightarrow> outcome \<times> world" where
  "handle e attempt hdr hs w =
     (if is_RequestException e then (Continue hdr hs, backoff attempt w) else (Raise e, w))"

definition session_get :: "string \<Rightarrow> string \<Rightarrow> world \<Rightarrow> get_reply \<times> world" where
  "session_get url hdr w = (get_env w (get_calls w) url hdr, w\<lparr>get_calls := Suc (get_calls w)\<rparr>)"

definition attempt_body ::
  "DownloadTask \<Rightarrow> string \<Rightarrow> string \<Rightarrow> nat \<Rightarrow> string \<Rightarrow> nat \<Rightarrow> world \<Rightarrow> outcome \<times> world" where
  "attempt_body task url out attempt hdr hs w =
     (case session_get url hdr (rate_limiter_wait w) of
        (GetRaises, w2) \<Rightarrow> handle ConnectionError attempt hdr hs w2
      | (Response st ra body, w2) \<Rightarrow>
          if st = 401 then
            (case refresh_token w2 of
               (Inl e, w3) \<Rightarrow> handle e attempt hdr st w3
             | (Inr _, w3) \<Rightarrow>
                 (case get_token_cached w3 of
                    (Inl e, w4) \<Rightarrow> handle e attempt hdr st w4
                  | (Inr t, w4) \<Rightarrow> (Continue (''Bearer '' @ t) st, w4)))
          else if st \<in> RETRY_STATUS then
            (case ra of
               None \<Rightarrow> (Continue hdr st, backoff attempt w2)
             | Some s \<Rightarrow>
                 if s \<noteq> [] \<and> isdigit s then
                   (case py_int s of
                      Inl e \<Rightarrow> handle e attempt hdr st w2
                    | Inr n \<Rightarrow> (Continue hdr st, time_sleep (real n) w2))
                 else (Continue hdr st, backoff attempt w2))
          else if st \<noteq> 200 then (Return (failed task st out), w2)
          else if \<not> startswith body ''%PDF'' then (Return (failed task st out), w2)
          else
            (Return (downloaded task st body out),
             w2\<lparr>files := (files w2)(out \<mapsto> body), writes := writes w2 @ [(out, body)]\<rparr>))"

text \<open>The loop \<open>for attempt in range(1, 8)\<close> over the attempt numbers still to run.\<close>

fun attempt_loop ::
  "DownloadTask \<Rightarrow> string \<Rightarrow> string \<Rightarrow> nat list \<Rightarrow> string \<Rightarrow> nat \<Rightarrow> world \<Rightarrow> (exn + result) \<times> world" where
  "attempt_loop task url out [] hdr hs w = (Inr (failed task hs out), w)"
| "attempt_loop task url out (attempt # rest) hdr hs w =
     (case attempt_body task url out attempt hdr hs w of
        (Continue hdr' hs', w') \<Rightarrow> attempt_loop task url out rest hdr' hs' w'
      | (Return r, w') \<Rightarrow> (Inr r, w')
      | (Raise e, w') \<Rightarrow> (Inl e, w'))"

text \<open>
  \<open>os.path.exists\<close> and \<open>os.path.getsize\<close>; the size is asked only of a path that
  exists.
\<close>

definition exists_path :: "string \<Rightarrow> world \<Rightarrow> bool" where
  "exists_path p w = (files w p \<noteq> None)"

definition getsize :: "string \<Rightarrow> world \<Rightarrow> nat" where
  "getsize p w = (case files w p of None \<Rightarrow> 0 | Some c \<Rightarrow> length c)"

definition precheck :: "string \<Rightarrow> world \<Rightarrow> bool" where
  "precheck out w = (exists_path out w \<and> getsize out w > 1024)"

definition download_one :: "DownloadTask \<Rightarrow> world \<Rightarrow> (exn + result) \<times> world" where
  "download_one task w =
     (let out = out_path_for task in
      if precheck out w then
        (Inr (skipped task (getsize out w) out), w)
      else
        (case get_token_cached w of
           (Inl e, w1) \<Rightarrow> (Inl e, w1)
         | (Inr t, w1) \<Rightarrow> attempt_loop task (IMG_URL task) out [1..<8] (''Bearer '' @ t) 0 w1))"

subsection \<open>run_bulk\<close>

text \<open>
  A row of the log, as the list \<open>append_log\<close> receives: text cells, number cells and
  the time stamp (the clock when the row is made).
\<close>

datatype cell = S string | N nat | T real

definition log_row :: "real \<Rightarrow> result \<Rightarrow> cell list" where
  "log_row ts r =
     [T ts, S (country (r_task r)), S (pub_number (r_task r)), S (kind (r_task r)),
      S (status_str r), N (http_status r), N (bytes_written r),
      S (if success r then ''ok'' else ''error''), S (out_path r)]"

text \<open>
  One chunk with one worker (\<open>WORKERS = 1\<close>): the worker thread runs every task of
  the chunk in order; the main thread takes the results in that order and appends a
  row for each, until \<open>fut.result()\<close> raises what a task raised. The pool is shut down
  waiting for the tasks still queued, so they run all the same.
\<close>

fun run_tasks :: "DownloadTask list \<Rightarrow> world \<Rightarrow> ((exn + result) \<times> real) list \<times> world" where
  "run_tasks [] w = ([], w)"
| "run_tasks (t # ts) w =
     (case download_one t w of
        (x, w') \<Rightarrow> (case run_tasks ts w' of (xs, w'') \<Rightarrow> ((x, clock w') # xs, w'')))"

fun append_results :: "((exn + result) \<times> real) list \<Rightarrow> cell list list \<Rightarrow> exn option \<times> cell list list" where
  "append_results [] rows = (None, rows)"
| "append_results ((Inl e, ts) # xs) rows = (Some e, rows)"
| "append_results ((Inr r, ts) # xs) rows = append_results xs (rows @ [log_row ts r])"

definition run_chunk ::
  "DownloadTask list \<Rightarrow> world \<times> cell list list \<Rightarrow> exn option \<times> world \<times> cell list list" where
  "run_chunk chunk s =
     (case run_tasks chunk (fst s) of
        (xs, w') \<Rightarrow> (case append_results xs (snd s) of (e, rows') \<Rightarrow> (e, w', rows')))"

text \<open>The chunks one after the other; an exception leaving a chunk ends the run.\<close>

fun run_chunks ::
  "DownloadTask list list \<Rightarrow> world \<times> cell list list \<Rightarrow> exn option \<times> world \<times> cell list list" where
  "run_chunks [] s = (None, s)"
| "run_chunks (c # cs) s =
     (case run_chunk c s of
        (Some e, s') \<Rightarrow> (Some e, s')
      | (None, s') \<Rightarrow> run_chunks cs s')"

text \<open>
  \<open>chunked\<close>: slices of \<open>size\<close> tasks (\<open>sz\<close> here); \<open>range\<close> refuses a step of
  zero. At most \<open>len(it)\<close> slices are non-empty, which bounds the recursion.
\<close>

fun chunked_fuel :: "nat \<Rightarrow> 'a list \<Rightarrow> nat \<Rightarrow> 'a list list" where
  "chunked_fuel 0 it sz = []"
| "chunked_fuel (Suc n) it sz =
     (if it = [] then [] else take sz it # chunked_fuel n (drop sz it) sz)"

definition chunked :: "'a list \<Rightarrow> nat \<Rightarrow> exn + 'a list list" where
  "chunked it sz = (if sz = 0 then Inl ValueError else Inr (chunked_fuel (length it) it sz))"

definition header_row :: "cell list" where
  "header_row = [S ''ts'', S ''country'', S ''pub_number'', S ''kind'', S ''status'',
                 S ''http_status'', S ''bytes'', S ''message'', S ''out_path'']"

text \<open>\<open>init_log\<close>: the header is written when the log does not exist yet.\<close>

definition init_log :: "cell list list option \<Rightarrow> cell list list" where
  "init_log lg = (case lg of None \<Rightarrow> [header_row] | Some rows \<Rightarrow> rows)"

definition run_bulk ::
  "DownloadTask list \<Rightarrow> nat \<Rightarrow> world \<times> cell list list option \<Rightarrow> exn option \<times> world \<times> cell list list" where
  "run_bulk tasks chunk_size s =
     (case chunked tasks chunk_size of
        Inl e \<Rightarrow> (Some e, fst s, init_log (snd s))
      | Inr chunks \<Rightarrow> run_chunks chunks (fst s, init_log (snd s)))"

subsection \<open>Concrete tasks and environments\<close>

definition task0 :: DownloadTask where
  "task0 = \<lparr> pub_number = ''0884389'', kind = ''A1'', country = ''EP'' \<rparr>"

text \<open>
  A process that has just started: no token, no files, the limiter as the module
  makes it (\<open>RATE_PER_SEC = 1.0\<close>), with the two endpoints given.
\<close>

definition fresh_world ::
  "(nat \<Rightarrow> auth_reply) \<Rightarrow> (nat \<Rightarrow> string \<Rightarrow> string \<Rightarrow> get_reply) \<Rightarrow> world" where
  "fresh_world auth get =
     \<lparr> token = None, files = Map.empty, writes = [], rate_limiter = RateLimiter_init 1 0,
       clock = 0, auth_env = auth, auth_calls = 0, get_env = get, get_calls = 0,
       random_env = (\<lambda>_. 1 / 2), random_calls = 0, slept = [] \<rparr>"

definition auth_ok :: "nat \<Rightarrow> auth_reply" where
  "auth_ok n = AuthResponse 200 (Some ''tok'')"

definition auth_down :: "nat \<Rightarrow> auth_reply" where
  "auth_down n = AuthResponse 500 None"

definition always :: "get_reply \<Rightarrow> nat \<Rightarrow> string \<Rightarrow> string \<Rightarrow> get_reply" where
  "always r n url hdr = r"

definition kilobytes :: string where
  "kilobytes = replicate 2000 CHR ''x''"

section \<open>Bulk downloader (epo-bulk-downloader.py)\<close>

subsection \<open>JSON values and the lookup helpers\<close>

text \<open>
  What \<open>r.json()\<close> returns. A \<open>dict\<close> is an association list read with \<open>map_of\<close>;
  \<open>None\<close> is \<open>JNull\<close>.
\<close>

datatype json =
    JNull
  | JBool bool
  | JNum int
  | JStr string
  | JArr "json list"
  | JObj "(string \<times> json) list"

text \<open>\<open>pick_first\<close>; returning \<open>None\<close> is the result \<open>None\<close> here.\<close>

fun pick_first :: "(string \<times> json) list \<Rightarrow> string list \<Rightarrow> json option" where
  "pick_first d [] = None"
| "pick_first d (k # keys) =
     (case map_of d k of
        None \<Rightarrow> pick_first d keys
      | Some v \<Rightarrow> if v \<noteq> JNull then Some v else pick_first d keys)"

definition find_delivery_id :: "(string \<times> json) list \<Rightarrow> json option" where
  "find_delivery_id delivery =
     pick_first delivery [''id'', ''deliveryId'', ''delivery_id'', ''deliveryID'', ''uuid'', ''key'']"

text \<open>
  The loop of \<open>main\<close> over the nested keys: the first key whose value is a \<open>dict\<close>
  in which \<open>find_delivery_id\<close> finds an id gives the id and becomes the delivery.
\<close>

fun nested_delivery_id ::
  "(string \<times> json) list \<Rightarrow> string list \<Rightarrow> (json \<times> (string \<times> json) list) option" where
  "nested_delivery_id d [] = None"
| "nested_delivery_id d (nested_key # rest) =
     (case map_of d nested_key of
        Some (JObj inner) \<Rightarrow>
          (case find_delivery_id inner of
             Some v \<Rightarrow> Some (v, inner)
           | None \<Rightarrow> nested_delivery_id d rest)
      | _ \<Rightarrow> nested_delivery_id d rest)"

text \<open>
  The head of the body of \<open>main\<close>'s loop over the deliveries: the delivery id (if any)
  and the object the files are then read from.
\<close>

definition delivery_id_of :: "(string \<times> json) list \<Rightarrow> json option \<times> (string \<times> json) list" where
  "delivery_id_of d =
     (case find_delivery_id d of
        Some v \<Rightarrow> (Some v, d)
      | None \<Rightarrow>
          (case nested_delivery_id d [''delivery'', ''meta'', ''data''] of
             Some (v, inner) \<Rightarrow> (Some v, inner)
           | None \<Rightarrow> (None, d)))"

subsection \<open>Paths\<close>

text \<open>A \<open>pathlib\<close> path: the parent directory and the final component.\<close>

record Path =
  parent :: string
  name :: string

text \<open>\<open>str.rfind\<close> of a character: the last index where it occurs.\<close>

fun rfind :: "char \<Rightarrow> string \<Rightarrow> nat option" where
  "rfind c [] = None"
| "rfind c (x # xs) =
     (case rfind c xs of
        Some i \<Rightarrow> Some (Suc i)
      | None \<Rightarrow> if x = c then Some 0 else None)"

text \<open>\<open>PurePath.suffix\<close> and \<open>PurePath.with_suffix\<close>, on the final component.\<close>

definition suffix :: "string \<Rightarrow> string" where
  "suffix nm =
     (case rfind CHR ''.'' nm of
        None \<Rightarrow> []
      | Some i \<Rightarrow> if 0 < i \<and> i < length nm - 1 then drop i nm else [])"

definition with_suffix :: "Path \<Rightarrow> string \<Rightarrow> exn + Path" where
  "with_suffix p suf =
     (if CHR ''/'' \<in> set suf then Inl ValueError
      else if (suf \<noteq> [] \<and> hd suf \<noteq> CHR ''.'') \<or> suf = ''.'' then Inl ValueError
      else if name p = [] then Inl ValueError
      else if suffix (name p) = [] then Inr (p\<lparr>name := name p @ suf\<rparr>)
      else Inr (p\<lparr>name := take (length (name p) - length (suffix (name p))) (name p) @ suf\<rparr>))"

subsection \<open>The file system and the server\<close>

datatype node = RegFile string | Directory

text \<open>
  The \<open>Content-Length\<close> header of a reply, as \<open>int(cl)\<close> reads it: no header, a
  header that is an integer, a header on which \<open>int\<close> raises \<open>ValueError\<close>.
\<close>

datatype content_length = Absent | Parsed int | Malformed

datatype head_reply =
    HeadResponse nat content_length
  | HeadRaises

text \<open>
  A streamed reply: the status, the chunks \<open>iter_content\<close> yields, and whether the
  stream then ends (\<open>True\<close>) or the connection breaks and \<open>iter_content\<close> raises.
\<close>

datatype stream_reply =
    StreamResponse nat "string list" bool
  | StreamRaises

text \<open>
  The state of the script: the file system, with the list of the states it went
  through (one more after each change, so what an observer can see at any moment, or
  after the process is killed, is one of them), the server's replies to the n-th
  \<open>HEAD\<close> and the n-th streamed \<open>GET\<close> of a URL, and the sleeps.
\<close>

record bulk_world =
  fs :: "Path \<rightharpoonup> node"
  history :: "(Path \<rightharpoonup> node) list"
  head_env :: "nat \<Rightarrow> string \<Rightarrow> head_reply"
  head_calls :: nat
  stream_env :: "nat \<Rightarrow> string \<Rightarrow> stream_reply"
  stream_calls :: nat
  naps :: "real list"

definition set_fs :: "(Path \<rightharpoonup> node) \<Rightarrow> bulk_world \<Rightarrow> bulk_world" where
  "set_fs f w = w\<lparr>fs := f, history := history w @ [f]\<rparr>"

definition nap :: "real \<Rightarrow> bulk_world \<Rightarrow> bulk_world" where
  "nap s w = w\<lparr>naps := naps w @ [s]\<rparr>"

subsection \<open>head_content_length and is_fully_downloaded\<close>

text \<open>
  The loop \<open>for i in range(retries)\<close>: \<open>raise_for_status\<close> and \<open>int(cl)\<close> raise
  inside the \<open>try\<close>, and \<open>except Exception\<close> catches everything.
\<close>

fun head_loop :: "string \<Rightarrow> real \<Rightarrow> nat list \<Rightarrow> bulk_world \<Rightarrow> int option \<times> bulk_world" where
  "head_loop url base_sleep [] w = (None, w)"
| "head_loop url base_sleep (i # rest) w =
     (let w1 = w\<lparr>head_calls := Suc (head_calls w)\<rparr> in
      case head_env w (head_calls w) url of
        HeadRaises \<Rightarrow> head_loop url base_sleep rest (nap (base_sleep * 2 ^ i) w1)
      | HeadResponse st cl \<Rightarrow>
          if 400 \<le> st \<and> st < 600 then head_loop url base_sleep rest (nap (base_sleep * 2 ^ i) w1)
          else
            (case cl of
               Absent \<Rightarrow> (None, w1)
             | Parsed n \<Rightarrow> (Some n, w1)
             | Malformed \<Rightarrow> head_loop url base_sleep rest (nap (base_sleep * 2 ^ i) w1)))"

definition head_content_length :: "string \<Rightarrow> nat \<Rightarrow> real \<Rightarrow> bulk_world \<Rightarrow> int option \<times> bulk_world" where
  "head_content_length url retries base_sleep w = head_loop url base_sleep [0..<retries] w"

text \<open>\<open>is_fully_downloaded\<close> calls \<open>head_content_length\<close> with its defaults, 4 and 0.6.\<close>

definition is_fully_downloaded :: "Path \<Rightarrow> string \<Rightarrow> bulk_world \<Rightarrow> bool \<times> bulk_world" where
  "is_fully_downloaded path download_url w =
     (case fs w path of
        None \<Rightarrow> (False, w)
      | Some Directory \<Rightarrow> (False, w)
      | Some (RegFile c) \<Rightarrow>
          if length c \<le> 0 then (False, w)
          else
            (case head_content_length download_url 4 (6 / 10) w of
               (None, w') \<Rightarrow> (False, w')
             | (Some remote_size, w') \<Rightarrow>
                 if int (length c) \<noteq> remote_size then (False, w') else (True, w')))"

text \<open>Whether one reply makes an attempt of \<open>head_content_length\<close> raise.\<close>

fun head_attempt_fails :: "head_reply \<Rightarrow> bool" where
  "head_attempt_fails HeadRaises = True"
| "head_attempt_fails (HeadResponse st cl) = ((400 \<le> st \<and> st < 600) \<or> cl = Malformed)"

subsection \<open>download_stream\<close>

text \<open>The loop over \<open>iter_content\<close>: each non-empty chunk is appended to the file.\<close>

fun write_chunks :: "Path \<Rightarrow> string list \<Rightarrow> nat \<Rightarrow> bulk_world \<Rightarrow> nat \<times> bulk_world" where
  "write_chunks tmp [] written w = (written, w)"
| "write_chunks tmp (b # bs) written w =
     (if b \<noteq> [] then
        write_chunks tmp bs (written + length b)
          (set_fs ((fs w)(tmp \<mapsto> RegFile ((case fs w tmp of Some (RegFile c) \<Rightarrow> c | _ \<Rightarrow> []) @ b))) w)
      else write_chunks tmp bs written w)"

text \<open>\<open>Path.replace\<close>: the rename, one change of the file system.\<close>

definition replace_path :: "Path \<Rightarrow> Path \<Rightarrow> bulk_world \<Rightarrow> bulk_world" where
  "replace_path src dst w = set_fs ((fs w)(dst := fs w src, src := None)) w"

text \<open>
  \<open>download_stream\<close>. Opening a directory for writing and renaming a file onto a
  directory raise \<open>OSError\<close>; a stream that breaks raises a \<open>RequestException\<close> out of
  the loop, so the rename is not reached. The directories that \<open>mkdir\<close> makes are
  not entries of \<open>fs\<close>.
\<close>

definition download_stream :: "string \<Rightarrow> Path \<Rightarrow> bulk_world \<Rightarrow> (exn + nat) \<times> bulk_world" where
  "download_stream url out w =
     (case with_suffix out (suffix (name out) @ ''.part'') of
        Inl e \<Rightarrow> (Inl e, w)
      | Inr tmp_path \<Rightarrow>
          (let w1 = w\<lparr>stream_calls := Suc (stream_calls w)\<rparr> in
           case stream_env w (stream_calls w) url of
             StreamRaises \<Rightarrow> (Inl ConnectionError, w1)
           | StreamResponse st chunks finished \<Rightarrow>
               if 400 \<le> st \<and> st < 600 then (Inl (HTTPError st), w1)
               else if fs w1 tmp_path = Some Directory then (Inl OSError, w1)
               else
                 (case write_chunks tmp_path chunks 0
                         (set_fs ((fs w1)(tmp_path \<mapsto> RegFile [])) w1) of
                    (written, w2) \<Rightarrow>
                      if \<not> finished then (Inl ConnectionError, w2)
                      else if fs w2 out = Some Directory then (Inl OSError, w2)
                      else (Inr written, replace_path tmp_path out w2))))"

text \<open>
  The lines of \<open>main\<close> around the download of one file: a file that is there but
  not verified is removed first (\<open>unlink\<close> of a directory raises), and the download
  is verified again.
\<close>

definition unlink_stale :: "Path \<Rightarrow> bulk_world \<Rightarrow> exn + bulk_world" where
  "unlink_stale out w =
     (case fs w out of
        None \<Rightarrow> Inr w
      | Some Directory \<Rightarrow> Inl OSError
      | Some (RegFile c) \<Rightarrow> Inr (set_fs ((fs w)(out := None)) w))"

definition fetch_file :: "Path \<Rightarrow> string \<Rightarrow> bulk_world \<Rightarrow> (exn + unit) \<times> bulk_world" where
  "fetch_file out url w =
     (case is_fully_downloaded out url w of
        (True, w1) \<Rightarrow> (Inr (), w1)
      | (False, w1) \<Rightarrow>
          (case unlink_stale out w1 of
             Inl e \<Rightarrow> (Inl e, w1)
           | Inr w2 \<Rightarrow>
               (case download_stream url out w2 of
                  (Inl e, w3) \<Rightarrow> (Inl e, w3)
                | (Inr written, w3) \<Rightarrow>
                    (case is_fully_downloaded out url w3 of
                       (False, w4) \<Rightarrow> (Inl RuntimeError, w4)
                     | (True, w4) \<Rightarrow> (Inr (), w4)))))"

section \<open>Concrete inputs\<close>

text \<open>
  The environments and files at which the properties below are evaluated: endpoints
  that always give the same reply, bodies of 2004, 1024 and 8 bytes, a \<open>Retry-After\<close>
  header made of the superscript digit two, a call of the limiter whose second clock
  reading falls short by a rounding, deliveries whose id is nested, and streams that
  end or break.
\<close>

definition html_world :: world where
  "html_world = fresh_world auth_ok (always (Response 200 None ''<html>''))"

definition small_pdf_world :: world where
  "small_pdf_world = fresh_world auth_ok (always (Response 200 None ''%PDF-1.4''))"

definition big_pdf :: string where
  "big_pdf = ''%PDF'' @ kilobytes"

definition big_pdf_world :: world where
  "big_pdf_world = fresh_world auth_ok (always (Response 200 None big_pdf))"

definition edge_pdf :: string where
  "edge_pdf = ''%PDF'' @ replicate 1020 CHR ''x''"

definition edge_pdf_world :: world where
  "edge_pdf_world = fresh_world auth_ok (always (Response 200 None edge_pdf))"

definition partial_content_world :: world where
  "partial_content_world = fresh_world auth_ok (always (Response 206 None ''%PDF-1.4''))"

definition superscript_two :: string where
  "superscript_two = [CHR 0xB2]"

definition bad_retry_after_world :: world where
  "bad_retry_after_world = fresh_world auth_ok (always (Response 503 (Some superscript_two) []))"

definition zero_tick :: tick where
  "zero_tick = \<lparr> idle = 0, rnd = 0, over = 0, lag = 0 \<rparr>"

definition short_tick :: tick where
  "short_tick = \<lparr> idle = 0, rnd = 0, over = 0, lag = - (1 / 10 ^ 15) \<rparr>"

definition meta_delivery :: "(string \<times> json) list" where
  "meta_delivery = [(''meta'', JObj [(''id'', JStr ''X'')])]"

definition deep_delivery :: "(string \<times> json) list" where
  "deep_delivery = [(''meta'', JObj [(''data'', JObj [(''id'', JStr ''X'')])])]"

definition data_delivery :: "(string \<times> json) list" where
  "data_delivery = [(''meta'', JObj [(''name'', JStr ''M'')]), (''data'', JObj [(''uuid'', JStr ''A'')])]"

definition all_nested_delivery :: "(string \<times> json) list" where
  "all_nested_delivery =
     [(''data'', JObj [(''id'', JStr ''A'')]), (''meta'', JObj [(''id'', JStr ''M'')]),
      (''delivery'', JObj [(''id'', JStr ''D'')])]"

definition meta_data_delivery :: "(string \<times> json) list" where
  "meta_data_delivery =
     [(''data'', JObj [(''id'', JStr ''A'')]), (''meta'', JObj [(''id'', JStr ''M'')]),
      (''delivery'', JStr ''D'')]"

definition top_delivery :: "(string \<times> json) list" where
  "top_delivery =
     [(''id'', JNull), (''key'', JStr ''K''), (''uuid'', JStr ''U''),
      (''delivery'', JObj [(''id'', JStr ''D'')])]"

definition archive :: Path where
  "archive = \<lparr> parent = ''tmp_bdds'', name = ''a.zip'' \<rparr>"

definition fresh_bulk ::
  "(Path \<rightharpoonup> node) \<Rightarrow> (nat \<Rightarrow> string \<Rightarrow> head_reply) \<Rightarrow> (nat \<Rightarrow> string \<Rightarrow> stream_reply) \<Rightarrow> bulk_world" where
  "fresh_bulk f h s =
     \<lparr> fs = f, history = [f], head_env = h, head_calls = 0, stream_env = s, stream_calls = 0,
       naps = [] \<rparr>"

definition head_flaky :: "nat \<Rightarrow> string \<Rightarrow> head_reply" where
  "head_flaky n url = (if n = 0 then HeadRaises else HeadResponse 200 (Parsed 5))"

definition head_down :: "nat \<Rightarrow> string \<Rightarrow> head_reply" where
  "head_down n url = HeadResponse 503 Absent"

definition stream_none :: "nat \<Rightarrow> string \<Rightarrow> stream_reply" where
  "stream_none n url = StreamRaises"

definition hello_fs :: "Path \<rightharpoonup> node" where
  "hello_fs = [archive \<mapsto> RegFile ''hello'']"

definition stream_whole :: "nat \<Rightarrow> string \<Rightarrow> stream_reply" where
  "stream_whole n url = StreamResponse 200 [''ab'', [], ''cd''] True"

definition stream_broken :: "nat \<Rightarrow> string \<Rightarrow> stream_reply" where
  "stream_broken n url = StreamResponse 200 [''ab''] False"

section \<open>Properties of the front-page downloader\<close>

subsection \<open>What each operation leaves alone\<close>

lemma frame_time_sleep:
  "files (time_sleep s w) = files w" "get_calls (time_sleep s w) = get_calls w"
  "get_env (time_sleep s w) = get_env w" "auth_calls (time_sleep s w) = auth_calls w"
  "auth_env (time_sleep s w) = auth_env w" "token (time_sleep s w) = token w" "writes (time_sleep s w) = writes w"
  by (simp_all add: time_sleep_def)

lemma frame_backoff:
  "files (backoff a w) = files w" "get_calls (backoff a w) = get_calls w"
  "get_env (backoff a w) = get_env w" "auth_calls (backoff a w) = auth_calls w"
  "auth_env (backoff a w) = auth_env w" "token (backoff a w) = token w" "writes (backoff a w) = writes w"
  by (simp_all add: backoff_def random_random_def frame_time_sleep)

lemma frame_rate_limiter_wait:
  "files (rate_limiter_wait w) = files w" "get_calls (rate_limiter_wait w) = get_calls w"
  "get_env (rate_limiter_wait w) = get_env w" "auth_calls (rate_limiter_wait w) = auth_calls w"
  "auth_env (rate_limiter_wait w) = auth_env w" "token (rate_limiter_wait w) = token w" "writes (rate_limiter_wait w) = writes w"
  by (simp_all add: rate_limiter_wait_def wait_def Let_def)

lemma frame_get_token_raw:
  "files (snd (get_token_raw w)) = files w" "get_calls (snd (get_token_raw w)) = get_calls w"
  "get_env (snd (get_token_raw w)) = get_env w"
  "auth_env (snd (get_token_raw w)) = auth_env w" "token (snd (get_token_raw w)) = token w"
  "auth_calls (snd (get_token_raw w)) = Suc (auth_calls w)" "writes (snd (get_token_raw w)) = writes w"
  by (simp_all add: get_token_raw_def Let_def split: auth_reply.splits option.splits)

lemma frame_get_token_cached:
  "files (snd (get_token_cached w)) = files w" "get_calls (snd (get_token_cached w)) = get_calls w"
  "get_env (snd (get_token_cached w)) = get_env w"
  "auth_env (snd (get_token_cached w)) = auth_env w" "writes (snd (get_token_cached w)) = writes w"
  using frame_get_token_raw[of w]
  by (auto simp: get_token_cached_def split: option.splits prod.splits sum.splits)

lemma frame_refresh_token:
  "files (snd (refresh_token w)) = files w" "get_calls (snd (refresh_token w)) = get_calls w"
  "get_env (snd (refresh_token w)) = get_env w"
  "auth_env (snd (refresh_token w)) = auth_env w" "writes (snd (refresh_token w)) = writes w"
  using frame_get_token_raw[of w]
  by (auto simp: refresh_token_def split: option.splits prod.splits sum.splits)

lemma frame_handle:
  "files (snd (handle e a h s w)) = files w" "get_calls (snd (handle e a h s w)) = get_calls w"
  "get_env (snd (handle e a h s w)) = get_env w" "writes (snd (handle e a h s w)) = writes w"
  by (simp_all add: handle_def frame_backoff)

lemma frame_session_get:
  "files (snd (session_get u h w)) = files w" "get_calls (snd (session_get u h w)) = Suc (get_calls w)"
  "get_env (snd (session_get u h w)) = get_env w" "writes (snd (session_get u h w)) = writes w"
  "fst (session_get u h w) = get_env w (get_calls w) u h"
  by (simp_all add: session_get_def)

lemma attempt_body_get_calls:
  "get_calls (snd (attempt_body task url out a hdr hs w)) = Suc (get_calls w)"
proof -
  obtain r w2 where g: "session_get url hdr (rate_limiter_wait w) = (r, w2)" by force
  have c: "get_calls w2 = Suc (get_calls w)"
    using frame_session_get(2)[of url hdr "rate_limiter_wait w"] g by (simp add: frame_rate_limiter_wait)
  show ?thesis
  proof (cases r)
    case GetRaises
    then show ?thesis using g c by (simp add: attempt_body_def frame_handle)
  next
    case (Response st ra body)
    have r1: "get_calls (snd (refresh_token w2)) = Suc (get_calls w)" using c by (simp add: frame_refresh_token)
    have r2: "get_calls (snd (get_token_cached (snd (refresh_token w2)))) = Suc (get_calls w)"
      using r1 by (simp add: frame_get_token_cached)
    show ?thesis using g c r1 r2 Response
      by (auto simp: attempt_body_def frame_handle frame_backoff frame_time_sleep  split: prod.splits sum.splits option.splits)
  qed
qed


lemma attempt_body_get_env:
  "get_env (snd (attempt_body task url out a hdr hs w)) = get_env w"
proof -
  obtain r w2 where g: "session_get url hdr (rate_limiter_wait w) = (r, w2)" by force
  have c: "get_env w2 = get_env w"
    using frame_session_get(3)[of url hdr "rate_limiter_wait w"] g by (simp add: frame_rate_limiter_wait)
  show ?thesis
  proof (cases r)
    case GetRaises
    then show ?thesis using g c by (simp add: attempt_body_def frame_handle)
  next
    case (Response st ra body)
    have r1: "get_env (snd (refresh_token w2)) = get_env w" using c by (simp add: frame_refresh_token)
    have r2: "get_env (snd (get_token_cached (snd (refresh_token w2)))) = get_env w"
      using r1 by (simp add: frame_get_token_cached)
    show ?thesis using g c r1 r2 Response
      by (auto simp: attempt_body_def frame_handle frame_backoff frame_time_sleep  split: prod.splits sum.splits option.splits)
  qed
qed

lemma attempt_body_files:
  "(files (snd (attempt_body task url out a hdr hs w)) = files w \<and>
    writes (snd (attempt_body task url out a hdr hs w)) = writes w \<and>
    (\<forall>r. fst (attempt_body task url out a hdr hs w) = Return r \<longrightarrow> r = failed task (http_status r) out)) \<or>
   (\<exists>body. startswith body ''%PDF'' \<and>
      fst (attempt_body task url out a hdr hs w) = Return (downloaded task 200 body out) \<and>
      files (snd (attempt_body task url out a hdr hs w)) = (files w)(out \<mapsto> body) \<and>
      writes (snd (attempt_body task url out a hdr hs w)) = writes w @ [(out, body)])"
proof -
  obtain r w2 where g: "session_get url hdr (rate_limiter_wait w) = (r, w2)" by force
  have c: "files w2 = files w" "writes w2 = writes w"
    using frame_session_get(1,4)[of url hdr "rate_limiter_wait w"] g by (simp_all add: frame_rate_limiter_wait)
  show ?thesis
  proof (cases r)
    case GetRaises
    then show ?thesis using g c by (simp add: attempt_body_def frame_handle handle_def frame_backoff)
  next
    case (Response st ra body)
    have r1: "files (snd (refresh_token w2)) = files w" "writes (snd (refresh_token w2)) = writes w" using c by (simp_all add: frame_refresh_token)
    have r2: "files (snd (get_token_cached (snd (refresh_token w2)))) = files w"
       "writes (snd (get_token_cached (snd (refresh_token w2)))) = writes w"
      using r1 by (simp_all add: frame_get_token_cached)
    show ?thesis using g c r1 r2 Response
      by (auto simp: attempt_body_def frame_handle handle_def frame_backoff frame_time_sleep failed_def downloaded_def split: prod.splits sum.splits option.splits)
  qed
qed


lemma attempt_loop_get_calls:
  "get_calls (snd (attempt_loop task url out atts hdr hs w)) \<le> get_calls w + length atts"
proof (induction atts arbitrary: hdr hs w)
  case Nil
  then show ?case by simp
next
  case (Cons a atts)
  obtain oc w' where b: "attempt_body task url out a hdr hs w = (oc, w')" by force
  have c: "get_calls w' = Suc (get_calls w)" using attempt_body_get_calls[of task url out a hdr hs w] b by simp
  show ?case
  proof (cases oc)
    case (Continue h s)
    then show ?thesis using b c Cons.IH[of h s w'] by simp
  qed (use b c in simp_all)
qed

lemma attempt_loop_files:
  "(files (snd (attempt_loop task url out atts hdr hs w)) = files w \<and>
    writes (snd (attempt_loop task url out atts hdr hs w)) = writes w \<and>
    (\<forall>r. fst (attempt_loop task url out atts hdr hs w) = Inr r \<longrightarrow> r = failed task (http_status r) out)) \<or>
   (\<exists>body. startswith body ''%PDF'' \<and>
      fst (attempt_loop task url out atts hdr hs w) = Inr (downloaded task 200 body out) \<and>
      files (snd (attempt_loop task url out atts hdr hs w)) = (files w)(out \<mapsto> body) \<and>
      writes (snd (attempt_loop task url out atts hdr hs w)) = writes w @ [(out, body)])"
proof (induction atts arbitrary: hdr hs w)
  case Nil
  then show ?case by (simp add: failed_def)
next
  case (Cons a atts)
  obtain oc w' where b: "attempt_body task url out a hdr hs w = (oc, w')" by force
  note f = attempt_body_files[of task url out a hdr hs w, unfolded b fst_conv snd_conv]
  show ?case
  proof (cases oc)
    case (Continue h s)
    then have "files w' = files w" "writes w' = writes w" using f by auto
    then show ?thesis using b Continue Cons.IH[of h s w'] by simp
  next
    case (Return r)
    then show ?thesis using b f by auto
  next
    case (Raise e)
    then show ?thesis using b f by auto
  qed
qed

lemma upt18: "[Suc 0..<8] = [1, 2, 3, 4, 5, 6, 7::nat]"
  by (simp add: upt_rec)

lemma chunked_single: "0 < cs \<Longrightarrow> chunked [t] cs = Inr [[t]]"
  by (cases cs) (simp_all add: chunked_def)

subsection \<open>The pre-check\<close>

text \<open>
  C10. When the output file exists with more than 1024 bytes, \<open>download_one\<close> returns
  at once, the state untouched (so no request was made), and the result says: success,
  \<open>skipped\<close>, HTTP status 200, the size of the file as the bytes written. The row
  \<open>run_bulk\<close> appends for it carries the same values, with the message \<open>ok\<close>.
\<close>

theorem skip_reports_http_200:
  assumes "files w (out_path_for task) = Some c" and "1024 < length c"
  shows "download_one task w = (Inr (skipped task (length c) (out_path_for task)), w)
       \<and> http_status (skipped task (length c) (out_path_for task)) = 200
       \<and> success (skipped task (length c) (out_path_for task))
       \<and> bytes_written (skipped task (length c) (out_path_for task)) = length c
       \<and> log_row ts (skipped task (length c) (out_path_for task)) =
           [T ts, S (country task), S (pub_number task), S (kind task), S ''skipped'', N 200,
            N (length c), S ''ok'', S (out_path_for task)]
       \<and> (0 < chunk_size \<longrightarrow>
            run_bulk [task] chunk_size (w, Some rows) =
              (None, w, rows @ [log_row (clock w) (skipped task (length c) (out_path_for task))]))"
proof -
  have d: "download_one task w = (Inr (skipped task (length c) (out_path_for task)), w)"
    using assms by (simp add: download_one_def precheck_def exists_path_def getsize_def)
  have r: "0 < chunk_size \<Longrightarrow> run_bulk [task] chunk_size (w, Some rows) =
              (None, w, rows @ [log_row (clock w) (skipped task (length c) (out_path_for task))])"
    using d by (simp add: run_bulk_def chunked_single run_chunk_def init_log_def)
  show ?thesis using d r by (simp add: skipped_def log_row_def)
qed

theorem skip_reports_http_200_witness:
  "download_one task0 ((fresh_world auth_down (always GetRaises))\<lparr>files := [out_path_for task0 \<mapsto> kilobytes]\<rparr>)
     = (Inr (skipped task0 2000 (out_path_for task0)),
        (fresh_world auth_down (always GetRaises))\<lparr>files := [out_path_for task0 \<mapsto> kilobytes]\<rparr>)
   \<and> http_status (skipped task0 2000 (out_path_for task0)) = 200
   \<and> run_bulk [task0] 100 ((fresh_world auth_down (always GetRaises))\<lparr>files := [out_path_for task0 \<mapsto> kilobytes]\<rparr>, Some [])
       = (None, (fresh_world auth_down (always GetRaises))\<lparr>files := [out_path_for task0 \<mapsto> kilobytes]\<rparr>,
          [[T 0, S ''EP'', S ''0884389'', S ''A1'', S ''skipped'', N 200, N 2000, S ''ok'',
            S ''front_pages/EP0884389A1_page1.pdf'']])"
proof -
  let ?w = "(fresh_world auth_down (always GetRaises))\<lparr>files := [out_path_for task0 \<mapsto> kilobytes]\<rparr>"
  have f: "files ?w (out_path_for task0) = Some kilobytes" by simp
  have l: "1024 < length kilobytes" by (simp add: kilobytes_def)
  have n: "length kilobytes = 2000" by (simp add: kilobytes_def)
  have c: "clock ?w = 0" by (simp add: fresh_world_def)
  have o: "out_path_for task0 = ''front_pages/EP0884389A1_page1.pdf''"
    by (simp add: out_path_for_def task0_def path_join_def OUT_DIR_def)
  have t: "country task0 = ''EP''" "pub_number task0 = ''0884389''" "kind task0 = ''A1''"
    by (simp_all add: task0_def)
  show ?thesis
    using skip_reports_http_200 [OF f l, of 0 100 "[]"] 
    unfolding n c by (simp add: log_row_def skipped_def t o)
qed

subsection \<open>The attempts\<close>

lemma attempt_body_reply:
  "session_get url hdr (rate_limiter_wait w) =
     (get_env w (get_calls w) url hdr, (rate_limiter_wait w)\<lparr>get_calls := Suc (get_calls w)\<rparr>)"
  by (simp add: session_get_def frame_rate_limiter_wait)

lemma attempt_body_fatal:
  assumes "get_env w (get_calls w) url hdr = Response st ra body"
    and "st \<noteq> 401" and "st \<notin> RETRY_STATUS" and "st \<noteq> 200 \<or> \<not> startswith body ''%PDF''"
  shows "attempt_body task url out a hdr hs w =
           (Return (failed task st out), (rate_limiter_wait w)\<lparr>get_calls := Suc (get_calls w)\<rparr>)"
  using assms by (auto simp: attempt_body_def attempt_body_reply)

lemma attempt_body_retryable:
  assumes "get_env w (get_calls w) url hdr = Response st ra body"
    and "st \<in> RETRY_STATUS"
    and "\<forall>s. ra = Some s \<and> isdigit s \<longrightarrow> list_all isdecimal_char s"
  shows "fst (attempt_body task url out a hdr hs w) = Continue hdr st"
proof -
  have "st \<noteq> 401" using assms(2) by (auto simp: RETRY_STATUS_def)
  then show ?thesis using assms
    by (auto simp: attempt_body_def attempt_body_reply py_int_def isdigit_def split: option.splits)
qed

lemma attempt_loop_always_503:
  assumes "\<forall>n u h. \<exists>ra body. get_env w n u h = Response 503 ra body
              \<and> (\<forall>s. ra = Some s \<and> isdigit s \<longrightarrow> list_all isdecimal_char s)"
  shows "fst (attempt_loop task url out atts hdr hs w) = Inr (failed task (if atts = [] then hs else 503) out)
       \<and> get_calls (snd (attempt_loop task url out atts hdr hs w)) = get_calls w + length atts"
  using assms
proof (induction atts arbitrary: hs w)
  case Nil
  then show ?case by simp
next
  case (Cons a atts)
  obtain ra body where r: "get_env w (get_calls w) url hdr = Response 503 ra body"
    and d: "\<forall>s. ra = Some s \<and> isdigit s \<longrightarrow> list_all isdecimal_char s"
    using Cons.prems by blast
  have m: "(503::nat) \<in> RETRY_STATUS" by (simp add: RETRY_STATUS_def)
  obtain w' where b: "attempt_body task url out a hdr hs w = (Continue hdr 503, w')"
    using attempt_body_retryable[OF r m d, of task out a hs] by (cases "attempt_body task url out a hdr hs w") simp
  have e: "get_env w' = get_env w" using attempt_body_get_env[of task url out a hdr hs w] b by simp
  have c: "get_calls w' = Suc (get_calls w)" using attempt_body_get_calls[of task url out a hdr hs w] b by simp
  have ih: "fst (attempt_loop task url out atts hdr 503 w') = Inr (failed task (if atts = [] then 503 else 503) out)
       \<and> get_calls (snd (attempt_loop task url out atts hdr 503 w')) = get_calls w' + length atts"
    using Cons.IH[of w' 503] Cons.prems e by simp
  show ?case using b ih c by simp
qed

lemma download_one_always_503:
  assumes "\<not> precheck (out_path_for task) w"
    and "fst (get_token_cached w) = Inr t"
    and "\<forall>n u h. \<exists>ra body. get_env w n u h = Response 503 ra body
              \<and> (\<forall>s. ra = Some s \<and> isdigit s \<longrightarrow> list_all isdecimal_char s)"
  shows "fst (download_one task w) = Inr (failed task 503 (out_path_for task))
       \<and> get_calls (snd (download_one task w)) = get_calls w + 7"
proof -
  obtain w1 where g: "get_token_cached w = (Inr t, w1)" using assms(2) by (cases "get_token_cached w") simp
  have e: "get_env w1 = get_env w" "get_calls w1 = get_calls w"
    using frame_get_token_cached(2,3)[of w] g by simp_all
  show ?thesis
    using attempt_loop_always_503[of w1 task "IMG_URL task" "out_path_for task" "[1..<8]" "''Bearer '' @ t" 0]
      assms(1,3) g e by (simp add: download_one_def)
qed

lemma download_one_at_most_7:
  "get_calls (snd (download_one task w)) \<le> get_calls w + 7"
proof (cases "precheck (out_path_for task) w")
  case True
  then show ?thesis by (simp add: download_one_def Let_def)
next
  case False
  obtain x w1 where g: "get_token_cached w = (x, w1)" by force
  have e: "get_calls w1 = get_calls w" using frame_get_token_cached(2)[of w] g by simp
  show ?thesis
  proof (cases x)
    case (Inl err)
    then show ?thesis using False g e by (simp add: download_one_def)
  next
    case (Inr t)
    then show ?thesis
      using attempt_loop_get_calls[of task "IMG_URL task" "out_path_for task" "[1..<8]" "''Bearer '' @ t" 0 w1]
        False g e by (simp add: download_one_def)
  qed
qed

lemma failed_status: "status_str (failed task s out) = ''failed''"
  by (simp add: failed_def)

lemma download_one_cases:
  "(precheck (out_path_for task) w \<and>
      download_one task w = (Inr (skipped task (getsize (out_path_for task) w) (out_path_for task)), w))
   \<or> (\<not> precheck (out_path_for task) w \<and>
       (\<exists>e. fst (get_token_cached w) = Inl e \<and> download_one task w = (Inl e, snd (get_token_cached w))))
   \<or> (\<not> precheck (out_path_for task) w \<and>
       (\<exists>t. fst (get_token_cached w) = Inr t \<and>
          download_one task w =
            attempt_loop task (IMG_URL task) (out_path_for task) [1..<8] (''Bearer '' @ t) 0
              (snd (get_token_cached w))))"
  by (cases "get_token_cached w"; cases "fst (get_token_cached w)")
     (auto simp: download_one_def Let_def)

lemma download_one_files:
  "(files (snd (download_one task w)) = files w \<and> writes (snd (download_one task w)) = writes w \<and>
    (\<forall>r. fst (download_one task w) = Inr r \<longrightarrow> status_str r \<noteq> ''downloaded''))
   \<or> (\<exists>body. startswith body ''%PDF'' \<and>
        fst (download_one task w) = Inr (downloaded task 200 body (out_path_for task)) \<and>
        files (snd (download_one task w)) = (files w)(out_path_for task \<mapsto> body) \<and>
        writes (snd (download_one task w)) = writes w @ [(out_path_for task, body)])"
proof -
  consider (skip) "download_one task w = (Inr (skipped task (getsize (out_path_for task) w) (out_path_for task)), w)"
    | (exn) e where "download_one task w = (Inl e, snd (get_token_cached w))"
    | (loop) t where "download_one task w =
            attempt_loop task (IMG_URL task) (out_path_for task) [1..<8] (''Bearer '' @ t) 0
              (snd (get_token_cached w))"
    using download_one_cases[of task w] by blast
  then show ?thesis
  proof cases
    case skip
    then show ?thesis by (simp add: skipped_def)
  next
    case exn
    then show ?thesis by (simp add: frame_get_token_cached)
  next
    case loop
    have f: "files (snd (get_token_cached w)) = files w" "writes (snd (get_token_cached w)) = writes w"
      by (simp_all add: frame_get_token_cached)
    let ?l = "attempt_loop task (IMG_URL task) (out_path_for task) [1..<8] (''Bearer '' @ t) 0
          (snd (get_token_cached w))"
    from attempt_loop_files[of task "IMG_URL task" "out_path_for task" "[1..<8]" "''Bearer '' @ t" 0
        "snd (get_token_cached w)"]
    consider (same) "files (snd ?l) = files w" "writes (snd ?l) = writes w"
        "\<forall>r. fst ?l = Inr r \<longrightarrow> r = failed task (http_status r) (out_path_for task)"
      | (wrote) body where "startswith body ''%PDF''"
        "fst ?l = Inr (downloaded task 200 body (out_path_for task))"
        "files (snd ?l) = (files w)(out_path_for task \<mapsto> body)"
        "writes (snd ?l) = writes w @ [(out_path_for task, body)]"
      unfolding f by blast
    then show ?thesis
    proof cases
      case same
      have "status_str r \<noteq> ''downloaded''" if "fst ?l = Inr r" for r
      proof -
        have "r = failed task (http_status r) (out_path_for task)" using same(3) that by blast
        then have "status_str r = ''failed''" by (metis failed_status)
        then show ?thesis by simp
      qed
      then show ?thesis using same(1,2) unfolding loop by blast
    next
      case wrote
      then show ?thesis unfolding loop by blast
    qed
  qed
qed


lemmas eval_defs = download_one_def precheck_def exists_path_def getsize_def out_path_for_def
  path_join_def OUT_DIR_def task0_def fresh_world_def auth_ok_def auth_down_def always_def
  get_token_cached_def get_token_raw_def refresh_token_def attempt_body_def session_get_def
  rate_limiter_wait_def wait_def RateLimiter_init_def handle_def backoff_def random_random_def
  time_sleep_def IMG_URL_def RETRY_STATUS_def isdigit_def isdigit_char_def
  isdecimal_char_def py_int_def failed_def downloaded_def skipped_def Let_def upt18

subsection \<open>The output file\<close>

text \<open>
  C5. \<open>download_one\<close> either leaves the files and the list of writes as they were,
  and then does not return \<open>downloaded\<close>; or it makes exactly one write, of a body that
  starts with \<open>%PDF\<close>, to the task's output path, and returns \<open>downloaded\<close> for that
  body. And an attempt that receives status 200 with a body that does not start with
  \<open>%PDF\<close> ends the loop at once with \<open>failed\<close>, zero bytes, and the files untouched.
\<close>

theorem output_written_only_on_success:
  "((files (snd (download_one task w)) = files w \<and> writes (snd (download_one task w)) = writes w \<and>
      (\<forall>r. fst (download_one task w) = Inr r \<longrightarrow> status_str r \<noteq> ''downloaded''))
     \<or> (\<exists>body. startswith body ''%PDF'' \<and>
          fst (download_one task w) = Inr (downloaded task 200 body (out_path_for task)) \<and>
          files (snd (download_one task w)) = (files w)(out_path_for task \<mapsto> body) \<and>
          writes (snd (download_one task w)) = writes w @ [(out_path_for task, body)]))
   \<and> (get_env w (get_calls w) url hdr = Response 200 ra body \<and> \<not> startswith body ''%PDF'' \<longrightarrow>
        fst (attempt_loop task url out (a # rest) hdr hs w) = Inr (failed task 200 out)
        \<and> bytes_written (failed task 200 out) = 0
        \<and> files (snd (attempt_loop task url out (a # rest) hdr hs w)) = files w
        \<and> writes (snd (attempt_loop task url out (a # rest) hdr hs w)) = writes w
        \<and> get_calls (snd (attempt_loop task url out (a # rest) hdr hs w)) = Suc (get_calls w))"
proof -
  have "fst (attempt_loop task url out (a # rest) hdr hs w) = Inr (failed task 200 out)
        \<and> bytes_written (failed task 200 out) = 0
        \<and> files (snd (attempt_loop task url out (a # rest) hdr hs w)) = files w
        \<and> writes (snd (attempt_loop task url out (a # rest) hdr hs w)) = writes w
        \<and> get_calls (snd (attempt_loop task url out (a # rest) hdr hs w)) = Suc (get_calls w)"
    if r: "get_env w (get_calls w) url hdr = Response 200 ra body" and n: "\<not> startswith body ''%PDF''"
  proof -
    have m: "(200::nat) \<notin> RETRY_STATUS" by (simp add: RETRY_STATUS_def)
    have "attempt_body task url out a hdr hs w =
           (Return (failed task 200 out), (rate_limiter_wait w)\<lparr>get_calls := Suc (get_calls w)\<rparr>)"
      using attempt_body_fatal[OF r _ m, of task out a hs] n by simp
    then show ?thesis by (simp add: frame_rate_limiter_wait failed_def)
  qed
  then show ?thesis using download_one_files[of task w] by blast
qed

theorem output_written_only_on_success_witness:
  "get_env html_world (get_calls html_world) (IMG_URL task0) ''Bearer tok'' = Response 200 None ''<html>''
   \<and> \<not> startswith ''<html>'' ''%PDF''
   \<and> fst (attempt_loop task0 (IMG_URL task0) (out_path_for task0) [1, 2] ''Bearer tok'' 0 html_world)
       = Inr (failed task0 200 (out_path_for task0))
   \<and> files (snd (attempt_loop task0 (IMG_URL task0) (out_path_for task0) [1, 2] ''Bearer tok'' 0 html_world))
       = Map.empty
   \<and> writes (snd (attempt_loop task0 (IMG_URL task0) (out_path_for task0) [1, 2] ''Bearer tok'' 0 html_world))
       = []"
proof -
  have r: "get_env html_world (get_calls html_world) (IMG_URL task0) ''Bearer tok'' = Response 200 None ''<html>''"
    by (simp add: html_world_def fresh_world_def always_def)
  have n: "\<not> startswith ''<html>'' ''%PDF''" by (simp add: startswith_def)
  have f: "files html_world = Map.empty" "writes html_world = []"
    by (simp_all add: html_world_def fresh_world_def)
  show ?thesis
    using output_written_only_on_success[of task0 html_world "IMG_URL task0" "''Bearer tok''" None "''<html>''"
        "out_path_for task0" 1 "[2]" 0] r n f by simp
qed

subsection \<open>Running twice\<close>

lemma get_token_cached_auth_calls:
  "auth_calls w \<le> auth_calls (snd (get_token_cached w))"
  "fst (get_token_cached w) = Inl e \<Longrightarrow> auth_calls (snd (get_token_cached w)) = Suc (auth_calls w)"
  using frame_get_token_raw(6)[of w]
  by (auto simp: get_token_cached_def split: option.splits prod.splits sum.splits)

lemma refresh_token_auth_calls:
  "auth_calls w \<le> auth_calls (snd (refresh_token w))"
  using frame_get_token_raw(6)[of w]
  by (auto simp: refresh_token_def split: option.splits prod.splits sum.splits)

lemma handle_auth_calls: "auth_calls (snd (handle e a h s w)) = auth_calls w"
  by (simp add: handle_def frame_backoff)

lemma attempt_body_auth_calls:
  "auth_calls w \<le> auth_calls (snd (attempt_body task url out a hdr hs w))"
proof -
  obtain r w2 where g: "session_get url hdr (rate_limiter_wait w) = (r, w2)" by force
  have c: "auth_calls w2 = auth_calls w"
    using g by (auto simp: session_get_def frame_rate_limiter_wait)
  show ?thesis
  proof (cases r)
    case GetRaises
    then show ?thesis using g c by (simp add: attempt_body_def handle_auth_calls)
  next
    case (Response st ra body)
    have r1: "auth_calls w \<le> auth_calls (snd (refresh_token w2))"
      using refresh_token_auth_calls[of w2] c by simp
    have r2: "auth_calls w \<le> auth_calls (snd (get_token_cached (snd (refresh_token w2))))"
      using get_token_cached_auth_calls(1)[of "snd (refresh_token w2)"] r1 by simp
    show ?thesis using g c r1 r2 Response
      by (auto simp: attempt_body_def handle_auth_calls frame_backoff frame_time_sleep
          split: prod.splits sum.splits option.splits)
  qed
qed

lemma attempt_loop_calls:
  "auth_calls w \<le> auth_calls (snd (attempt_loop task url out atts hdr hs w))
   \<and> get_calls w \<le> get_calls (snd (attempt_loop task url out atts hdr hs w))"
proof (induction atts arbitrary: hdr hs w)
  case Nil
  then show ?case by simp
next
  case (Cons a atts)
  obtain oc w' where b: "attempt_body task url out a hdr hs w = (oc, w')" by force
  have c: "get_calls w' = Suc (get_calls w)" using attempt_body_get_calls[of task url out a hdr hs w] b by simp
  have d: "auth_calls w \<le> auth_calls w'" using attempt_body_auth_calls[of w task url out a hdr hs] b by simp
  show ?case
  proof (cases oc)
    case (Continue h s)
    then show ?thesis using b c d Cons.IH[of w' h s] by auto
  qed (use b c d in simp_all)
qed

lemma attempt_loop_requests:
  "auth_calls w + get_calls w
     < auth_calls (snd (attempt_loop task url out (a # atts) hdr hs w))
       + get_calls (snd (attempt_loop task url out (a # atts) hdr hs w))"
proof -
  obtain oc w' where b: "attempt_body task url out a hdr hs w = (oc, w')" by force
  have c: "get_calls w' = Suc (get_calls w)" using attempt_body_get_calls[of task url out a hdr hs w] b by simp
  have d: "auth_calls w \<le> auth_calls w'" using attempt_body_auth_calls[of w task url out a hdr hs] b by simp
  show ?thesis
  proof (cases oc)
    case (Continue h s)
    then show ?thesis using b c d attempt_loop_calls[of w' task url out atts h s] by auto
  qed (use b c d in simp_all)
qed

lemma download_one_not_skipped:
  assumes "\<not> precheck (out_path_for task) w"
  shows "(\<forall>r. fst (download_one task w) = Inr r \<longrightarrow> status_str r \<noteq> ''skipped'')
       \<and> auth_calls w + get_calls w
           < auth_calls (snd (download_one task w)) + get_calls (snd (download_one task w))"
proof -
  consider (exn) e where "fst (get_token_cached w) = Inl e"
      "download_one task w = (Inl e, snd (get_token_cached w))"
    | (loop) t where "download_one task w =
            attempt_loop task (IMG_URL task) (out_path_for task) [1..<8] (''Bearer '' @ t) 0
              (snd (get_token_cached w))"
    using download_one_cases[of task w] assms by blast
  then show ?thesis
  proof cases
    case exn
    then show ?thesis
      using get_token_cached_auth_calls(2)[OF exn(1)] frame_get_token_cached(2)[of w] by simp
  next
    case loop
    let ?w1 = "snd (get_token_cached w)"
    let ?l = "attempt_loop task (IMG_URL task) (out_path_for task) [1..<8] (''Bearer '' @ t) 0 ?w1"
    have s: "status_str r \<noteq> ''skipped''" if "fst ?l = Inr r" for r
    proof -
      from attempt_loop_files[of task "IMG_URL task" "out_path_for task" "[1..<8]" "''Bearer '' @ t" 0 ?w1]
      have "r = failed task (http_status r) (out_path_for task)
            \<or> (\<exists>body. r = downloaded task 200 body (out_path_for task))"
        using that by auto
      then have "status_str r = ''failed'' \<or> status_str r = ''downloaded''"
        by (metis failed_status downloaded_def result.select_convs(3))
      then show ?thesis by auto
    qed
    have u: "[1..<8] = 1 # [2..<8]" by (simp add: upt_rec)
    have q: "auth_calls ?w1 + get_calls ?w1 < auth_calls (snd ?l) + get_calls (snd ?l)"
      unfolding u by (rule attempt_loop_requests)
    have "auth_calls w + get_calls w \<le> auth_calls ?w1 + get_calls ?w1"
      using get_token_cached_auth_calls(1)[of w] frame_get_token_cached(2)[of w] by simp
    then show ?thesis using s q unfolding loop by auto
  qed
qed

text \<open>
  C9, as amended. When a run of \<open>download_one\<close> ends \<open>downloaded\<close> with more than 1024
  bytes written, a later run on any state whose file at the output path is the one
  the first run left returns \<open>skipped\<close> with that size and changes nothing, so it
  makes no request. The threshold is exact: when the first run wrote 1024 bytes or
  fewer, the later run does not return \<open>skipped\<close> and sends at least one request, to
  the authentication endpoint or to the resource endpoint.
\<close>

theorem second_run_skips_iff_over_1024:
  assumes "download_one task w = (Inr r, w')"
    and "status_str r = ''downloaded''"
    and "files w2 (out_path_for task) = files w' (out_path_for task)"
  shows "(1024 < bytes_written r \<longrightarrow>
            download_one task w2 = (Inr (skipped task (bytes_written r) (out_path_for task)), w2))
       \<and> (bytes_written r \<le> 1024 \<longrightarrow>
            (\<forall>r2. fst (download_one task w2) = Inr r2 \<longrightarrow> status_str r2 \<noteq> ''skipped'')
            \<and> auth_calls w2 + get_calls w2
                < auth_calls (snd (download_one task w2)) + get_calls (snd (download_one task w2)))"
proof -
  from download_one_files[of task w] assms(1,2)
  obtain body where b: "r = downloaded task 200 body (out_path_for task)"
    and f: "files w' = (files w)(out_path_for task \<mapsto> body)"
    by auto
  have s: "files w2 (out_path_for task) = Some body" using assms(3) f by simp
  have l: "bytes_written r = length body" using b by (simp add: downloaded_def)
  have 1: "download_one task w2 = (Inr (skipped task (bytes_written r) (out_path_for task)), w2)"
    if "1024 < bytes_written r"
    using s l that by (simp add: download_one_def precheck_def exists_path_def getsize_def)
  have 2: "(\<forall>r2. fst (download_one task w2) = Inr r2 \<longrightarrow> status_str r2 \<noteq> ''skipped'')
            \<and> auth_calls w2 + get_calls w2
                < auth_calls (snd (download_one task w2)) + get_calls (snd (download_one task w2))"
    if "bytes_written r \<le> 1024"
  proof -
    have "\<not> precheck (out_path_for task) w2"
      using s l that by (simp add: precheck_def exists_path_def getsize_def)
    then show ?thesis by (rule download_one_not_skipped)
  qed
  show ?thesis using 1 2 by blast
qed

lemma big_pdf_facts: "startswith big_pdf ''%PDF''" "length big_pdf = 2004"
  by (simp_all add: big_pdf_def startswith_def kilobytes_def)

lemma edge_pdf_facts: "startswith edge_pdf ''%PDF''" "length edge_pdf = 1024"
  by (simp_all add: edge_pdf_def startswith_def)

lemma first_run_big:
  "download_one task0 big_pdf_world =
     (Inr (downloaded task0 200 big_pdf (out_path_for task0)), snd (download_one task0 big_pdf_world))"
proof -
  have "fst (download_one task0 big_pdf_world) = Inr (downloaded task0 200 big_pdf (out_path_for task0))"
    by (simp add: big_pdf_world_def eval_defs big_pdf_facts)
  then show ?thesis by (metis prod.collapse)
qed

lemma first_run_edge:
  "download_one task0 edge_pdf_world =
     (Inr (downloaded task0 200 edge_pdf (out_path_for task0)), snd (download_one task0 edge_pdf_world))"
  "auth_calls (snd (download_one task0 edge_pdf_world)) = 1"
  "get_calls (snd (download_one task0 edge_pdf_world)) = 1"
proof -
  have "fst (download_one task0 edge_pdf_world) = Inr (downloaded task0 200 edge_pdf (out_path_for task0))"
    by (simp add: edge_pdf_world_def eval_defs edge_pdf_facts)
  then show "download_one task0 edge_pdf_world =
     (Inr (downloaded task0 200 edge_pdf (out_path_for task0)), snd (download_one task0 edge_pdf_world))"
    by (metis prod.collapse)
  show "auth_calls (snd (download_one task0 edge_pdf_world)) = 1"
    by (simp add: edge_pdf_world_def eval_defs edge_pdf_facts)
  show "get_calls (snd (download_one task0 edge_pdf_world)) = 1"
    by (simp add: edge_pdf_world_def eval_defs edge_pdf_facts)
qed

theorem second_run_skips_iff_over_1024_witness:
  "download_one task0 big_pdf_world =
     (Inr (downloaded task0 200 big_pdf (out_path_for task0)), snd (download_one task0 big_pdf_world))
   \<and> status_str (downloaded task0 200 big_pdf (out_path_for task0)) = ''downloaded''
   \<and> 1024 < bytes_written (downloaded task0 200 big_pdf (out_path_for task0))
   \<and> download_one task0 (snd (download_one task0 big_pdf_world)) =
       (Inr (skipped task0 2004 (out_path_for task0)), snd (download_one task0 big_pdf_world))
   \<and> download_one task0 edge_pdf_world =
     (Inr (downloaded task0 200 edge_pdf (out_path_for task0)), snd (download_one task0 edge_pdf_world))
   \<and> bytes_written (downloaded task0 200 edge_pdf (out_path_for task0)) = 1024
   \<and> auth_calls (snd (download_one task0 edge_pdf_world)) + get_calls (snd (download_one task0 edge_pdf_world)) = 2
   \<and> 2 < auth_calls (snd (download_one task0 (snd (download_one task0 edge_pdf_world))))
          + get_calls (snd (download_one task0 (snd (download_one task0 edge_pdf_world))))"
proof -
  have s: "status_str (downloaded task0 200 big_pdf (out_path_for task0)) = ''downloaded''"
    by (simp add: downloaded_def)
  have b: "bytes_written (downloaded task0 200 big_pdf (out_path_for task0)) = 2004"
    by (simp add: downloaded_def big_pdf_facts)
  have l: "1024 < bytes_written (downloaded task0 200 big_pdf (out_path_for task0))"
    unfolding b by simp
  have big: "download_one task0 (snd (download_one task0 big_pdf_world)) =
       (Inr (skipped task0 2004 (out_path_for task0)), snd (download_one task0 big_pdf_world))"
    using second_run_skips_iff_over_1024[OF first_run_big s refl] l unfolding b by simp
  have s': "status_str (downloaded task0 200 edge_pdf (out_path_for task0)) = ''downloaded''"
    by (simp add: downloaded_def)
  have b': "bytes_written (downloaded task0 200 edge_pdf (out_path_for task0)) = 1024"
    by (simp add: downloaded_def edge_pdf_facts)
  have c: "auth_calls (snd (download_one task0 edge_pdf_world)) + get_calls (snd (download_one task0 edge_pdf_world)) = 2"
    using first_run_edge(2,3) by simp
  have edge: "2 < auth_calls (snd (download_one task0 (snd (download_one task0 edge_pdf_world))))
          + get_calls (snd (download_one task0 (snd (download_one task0 edge_pdf_world))))"
    using second_run_skips_iff_over_1024[OF first_run_edge(1) s' refl] unfolding b' c by simp
  show ?thesis using first_run_big s l big first_run_edge(1) b' c edge by blast
qed

text \<open>
  C9, as stated, fails: a first run that downloads eight bytes is followed by a second
  run that is not skipped and sends a second request.
\<close>

theorem small_download_is_fetched_again:
  "fst (download_one task0 small_pdf_world) = Inr (downloaded task0 200 ''%PDF-1.4'' (out_path_for task0))
   \<and> get_calls (snd (download_one task0 small_pdf_world)) = 1
   \<and> fst (download_one task0 (snd (download_one task0 small_pdf_world)))
       = Inr (downloaded task0 200 ''%PDF-1.4'' (out_path_for task0))
   \<and> get_calls (snd (download_one task0 (snd (download_one task0 small_pdf_world)))) = 2"
  by (simp add: small_pdf_world_def eval_defs startswith_def)

subsection \<open>Fatal statuses\<close>

text \<open>
  C4, as amended. On a response whose status is not 200, not 401 and not in
  \<open>RETRY_STATUS\<close> the loop returns \<open>failed\<close> with that status at once, after this one
  request; and for a body that does start with \<open>%PDF\<close>, the attempt returns \<open>failed\<close>
  exactly when the status is not 200, not 401 and not in \<open>RETRY_STATUS\<close>.
\<close>

theorem fatal_http_iff_not_200:
  assumes "get_env w (get_calls w) url hdr = Response st ra body"
  shows "(st \<noteq> 200 \<and> st \<noteq> 401 \<and> st \<notin> RETRY_STATUS \<longrightarrow>
            attempt_loop task url out (a # rest) hdr hs w =
              (Inr (failed task st out), (rate_limiter_wait w)\<lparr>get_calls := Suc (get_calls w)\<rparr>))
       \<and> (startswith body ''%PDF'' \<longrightarrow>
            (fst (attempt_body task url out a hdr hs w) = Return (failed task st out))
              = (st \<noteq> 200 \<and> st \<noteq> 401 \<and> st \<notin> RETRY_STATUS))"
proof -
  have 1: "attempt_loop task url out (a # rest) hdr hs w =
              (Inr (failed task st out), (rate_limiter_wait w)\<lparr>get_calls := Suc (get_calls w)\<rparr>)"
    if "st \<noteq> 200" "st \<noteq> 401" "st \<notin> RETRY_STATUS"
    using attempt_body_fatal[OF assms that(2,3), of task out a hs] that(1) by simp
  have 2: "fst (attempt_body task url out a hdr hs w) \<noteq> Return (failed task st out)"
    if "startswith body ''%PDF''" "st = 200 \<or> st = 401 \<or> st \<in> RETRY_STATUS"
    using assms that
    by (auto simp: attempt_body_def attempt_body_reply handle_def failed_def downloaded_def
        split: prod.splits sum.splits option.splits)
  have 3: "fst (attempt_body task url out a hdr hs w) = Return (failed task st out)"
    if "st \<noteq> 200" "st \<noteq> 401" "st \<notin> RETRY_STATUS"
    using attempt_body_fatal[OF assms that(2,3), of task out a hs] that(1) by simp
  show ?thesis using 1 2 3 by blast
qed

theorem fatal_http_iff_not_200_witness:
  "get_env partial_content_world (get_calls partial_content_world) (IMG_URL task0) ''Bearer tok''
     = Response 206 None ''%PDF-1.4''
   \<and> startswith ''%PDF-1.4'' ''%PDF''
   \<and> (206::nat) \<noteq> 200 \<and> (206::nat) \<noteq> 401 \<and> (206::nat) \<notin> RETRY_STATUS
   \<and> fst (attempt_loop task0 (IMG_URL task0) (out_path_for task0) [1, 2] ''Bearer tok'' 0
            partial_content_world) = Inr (failed task0 206 (out_path_for task0))
   \<and> fst (attempt_body task0 (IMG_URL task0) (out_path_for task0) 1 ''Bearer tok'' 0
            partial_content_world) = Return (failed task0 206 (out_path_for task0))"
proof -
  have r: "get_env partial_content_world (get_calls partial_content_world) (IMG_URL task0) ''Bearer tok''
     = Response 206 None ''%PDF-1.4''"
    by (simp add: partial_content_world_def fresh_world_def always_def)
  have s: "startswith ''%PDF-1.4'' ''%PDF''" by (simp add: startswith_def)
  have n: "(206::nat) \<notin> RETRY_STATUS" by (simp add: RETRY_STATUS_def)
  show ?thesis
    using fatal_http_iff_not_200[OF r, of task0 "out_path_for task0" 1 "[2]" 0] r s n by simp
qed

text \<open>
  C4, as stated, fails: status 206 is a 2xx status, and with a body that is a PDF
  \<open>download_one\<close> still returns \<open>failed\<close> after one request, writing nothing.
\<close>

theorem status_206_with_pdf_body_fails:
  "fst (download_one task0 partial_content_world) = Inr (failed task0 206 (out_path_for task0))
   \<and> get_calls (snd (download_one task0 partial_content_world)) = 1
   \<and> files (snd (download_one task0 partial_content_world)) = Map.empty
   \<and> startswith ''%PDF-1.4'' ''%PDF''
   \<and> (200::nat) \<le> 206 \<and> (206::nat) < 300"
  by (simp add: partial_content_world_def eval_defs startswith_def)

subsection \<open>Bounded retries\<close>

text \<open>
  C2. With every reply a 503 whose \<open>Retry-After\<close> is the superscript digit two,
  which \<open>isdigit\<close> accepts and \<open>int\<close> refuses, \<open>download_one\<close> does not return
  \<open>failed\<close> after seven attempts: \<open>ValueError\<close> escapes at the first one.
\<close>

theorem retry_after_superscript_digit_raises:
  "isdigit superscript_two
   \<and> fst (download_one task0 bad_retry_after_world) = Inl ValueError
   \<and> get_calls (snd (download_one task0 bad_retry_after_world)) = 1"
  by (simp add: bad_retry_after_world_def superscript_two_def eval_defs)

subsection \<open>Credential failures\<close>

text \<open>
  C1. In a process with no token yet, when the authentication endpoint answers 500,
  \<open>download_one\<close> returns no result: the \<open>HTTPError\<close> of the first \<open>get_token_cached\<close>
  escapes, and \<open>run_bulk\<close> ends with it, having logged nothing but the header.
\<close>

theorem initial_token_failure_escapes:
  "download_one task0 (fresh_world auth_down get) =
     (Inl (HTTPError 500), (fresh_world auth_down get)\<lparr>auth_calls := 1\<rparr>)
   \<and> run_bulk [task0] 100 (fresh_world auth_down get, None) =
     (Some (HTTPError 500), (fresh_world auth_down get)\<lparr>auth_calls := 1\<rparr>, [header_row])"
proof -
  have d: "download_one task0 (fresh_world auth_down get) =
     (Inl (HTTPError 500), (fresh_world auth_down get)\<lparr>auth_calls := 1\<rparr>)"
    by (simp add: eval_defs)
  show ?thesis unfolding run_bulk_def using d
    by (simp add: chunked_single run_chunk_def init_log_def)
qed

lemma refresh_failure_in_loop_is_retried:
  assumes "get_env w (get_calls w) url hdr = Response 401 ra body"
    and "auth_env w (auth_calls w) = AuthConnectionError
         \<or> (\<exists>st tok. auth_env w (auth_calls w) = AuthResponse st tok \<and> 400 \<le> st \<and> st < 600)"
  shows "fst (attempt_body task url out a hdr hs w) = Continue hdr 401"
  using assms
  by (auto simp: attempt_body_def attempt_body_reply refresh_token_def get_token_raw_def
      frame_rate_limiter_wait handle_def Let_def)


section \<open>Properties of the rate limiter\<close>

lemma wait_stamp:
  "last_ts rl + min_interval rl - jitter k \<le> snd (wait rl now (rnd k) (over k) (lag k))"
  "last_ts (fst (wait rl now r ov lg)) = snd (wait rl now r ov lg)"
  "min_interval (fst (wait rl now r ov lg)) = min_interval rl"
  by (auto simp: wait_def Let_def jitter_def max_def)

lemma run_waits_length: "length (run_waits rl c ks) = length ks"
  by (induction ks arbitrary: rl c) (simp_all split: prod.splits)

lemma run_waits_first:
  "last_ts rl + min_interval rl - jitter k \<le> run_waits rl c (k # ks) ! 0"
  using wait_stamp(1)[of rl k "c + idle k"]
  by (auto split: prod.splits)

lemma run_waits_gap:
  assumes "Suc i < length ks"
  shows "run_waits rl c ks ! i + min_interval rl - jitter (ks ! Suc i) \<le> run_waits rl c ks ! Suc i"
  using assms
proof (induction ks arbitrary: rl c i)
  case Nil
  then show ?case by simp
next
  case (Cons k ks)
  obtain rl' s where w: "wait rl (c + idle k) (rnd k) (over k) (lag k) = (rl', s)" by force
  have l: "last_ts rl' = s" and m: "min_interval rl' = min_interval rl"
    using wait_stamp(2,3)[of rl "c + idle k" "rnd k" "over k" "lag k"] w by simp_all
  have r: "run_waits rl c (k # ks) = s # run_waits rl' s ks" using w by simp
  show ?case
  proof (cases i)
    case 0
    then obtain k' ks' where ks: "ks = k' # ks'" using Cons.prems by (cases ks) auto
    from run_waits_first[of rl' k' s ks']
    have "s + min_interval rl - jitter k' \<le> run_waits rl' s ks ! 0" unfolding ks l m .
    moreover have "(k # ks) ! Suc 0 = k'" using ks by simp
    ultimately show ?thesis unfolding r 0 by (simp del: run_waits.simps)
  next
    case (Suc j)
    have "run_waits rl' s ks ! j + min_interval rl' - jitter (ks ! Suc j) \<le> run_waits rl' s ks ! Suc j"
      using Cons.IH[of j rl' s] Cons.prems Suc by simp
    then show ?thesis unfolding r Suc m by (simp del: run_waits.simps)
  qed
qed

text \<open>
  C3, as amended. For any sequence of calls of \<open>wait\<close> serialised by the lock, whatever
  the clock, the sleeps and the rounding do, two consecutive recorded timestamps are at
  least \<open>1 / max(rate, 0.0001)\<close> apart (as the limiter holds it, rounded), up to the
  jitter of the later call; so when no call has a jitter above \<open>j\<close>, every gap is at
  least the interval minus \<open>j\<close>. Each call records a timestamp that is at least
  \<open>min_interval\<close>, less its jitter, after the one it found, and leaves it as the
  limiter's timestamp. The jitter is never negative, and it is zero when the
  subtraction is exact or rounds up, the sleep lasts at least what was asked and the
  clock does not go back after it: then the bound is the interval itself.
\<close>

theorem pacing_gap_up_to_jitter:
  "(\<forall>i. Suc i < length ks \<longrightarrow>
      1 / max rate (1 / 10000) + e - jitter (ks ! Suc i)
        \<le> run_waits (RateLimiter_init rate e) c ks ! Suc i - run_waits (RateLimiter_init rate e) c ks ! i)
   \<and> (\<forall>j. (\<forall>k \<in> set ks. jitter k \<le> j) \<longrightarrow>
        (\<forall>i. Suc i < length ks \<longrightarrow>
           1 / max rate (1 / 10000) + e - j
             \<le> run_waits (RateLimiter_init rate e) c ks ! Suc i - run_waits (RateLimiter_init rate e) c ks ! i))
   \<and> (\<forall>rl now k.
        last_ts rl + min_interval rl - jitter k \<le> snd (wait rl now (rnd k) (over k) (lag k))
        \<and> last_ts (fst (wait rl now (rnd k) (over k) (lag k))) = snd (wait rl now (rnd k) (over k) (lag k)))
   \<and> 0 \<le> jitter k0
   \<and> (0 \<le> rnd k0 \<and> 0 \<le> over k0 \<and> 0 \<le> lag k0 \<longrightarrow> jitter k0 = 0)"
proof -
  have m: "min_interval (RateLimiter_init rate e) = 1 / max rate (1 / 10000) + e"
    by (simp add: RateLimiter_init_def)
  have 1: "1 / max rate (1 / 10000) + e - jitter (ks ! Suc i)
        \<le> run_waits (RateLimiter_init rate e) c ks ! Suc i - run_waits (RateLimiter_init rate e) c ks ! i"
    if "Suc i < length ks" for i
    using run_waits_gap[OF that, of "RateLimiter_init rate e" c] unfolding m by simp
  have 2: "1 / max rate (1 / 10000) + e - j
             \<le> run_waits (RateLimiter_init rate e) c ks ! Suc i - run_waits (RateLimiter_init rate e) c ks ! i"
    if b: "\<forall>k \<in> set ks. jitter k \<le> j" and i: "Suc i < length ks" for i j
  proof -
    have "ks ! Suc i \<in> set ks" using i by simp
    then have "jitter (ks ! Suc i) \<le> j" using b by blast
    then show ?thesis using 1[OF i] by simp
  qed
  have 3: "last_ts rl + min_interval rl - jitter k \<le> snd (wait rl now (rnd k) (over k) (lag k))
        \<and> last_ts (fst (wait rl now (rnd k) (over k) (lag k))) = snd (wait rl now (rnd k) (over k) (lag k))"
    for rl now k
    using wait_stamp(1,2) by blast
  have 4: "0 \<le> jitter k0" by (simp add: jitter_def)
  have 5: "0 \<le> rnd k0 \<and> 0 \<le> over k0 \<and> 0 \<le> lag k0 \<longrightarrow> jitter k0 = 0" by (simp add: jitter_def)
  show ?thesis using 1 2 3 4 5 by blast
qed

theorem pacing_gap_up_to_jitter_witness:
  "jitter zero_tick = 0 \<and> jitter short_tick = 1 / 10 ^ 15
   \<and> run_waits (RateLimiter_init 10 0) 5 [zero_tick, short_tick] = [5, 51 / 10 - 1 / 10 ^ 15]
   \<and> 1 / max 10 (1 / 10000) + 0 - 1 / 10 ^ 15
       \<le> run_waits (RateLimiter_init 10 0) 5 [zero_tick, short_tick] ! Suc 0
          - run_waits (RateLimiter_init 10 0) 5 [zero_tick, short_tick] ! 0
   \<and> run_waits (RateLimiter_init 10 0) 5 [zero_tick, short_tick] ! Suc 0
          - run_waits (RateLimiter_init 10 0) 5 [zero_tick, short_tick] ! 0 < 1 / 10"
proof -
  have j: "jitter zero_tick = 0" "jitter short_tick = 1 / 10 ^ 15"
    by (simp_all add: jitter_def zero_tick_def short_tick_def)
  have b: "\<forall>k \<in> set [zero_tick, short_tick]. jitter k \<le> 1 / 10 ^ 15" using j by simp
  have r: "run_waits (RateLimiter_init 10 0) 5 [zero_tick, short_tick] = [5, 51 / 10 - 1 / 10 ^ 15]"
    by (simp add: RateLimiter_init_def wait_def zero_tick_def short_tick_def Let_def)
  have l: "Suc 0 < length [zero_tick, short_tick]" by simp
  from pacing_gap_up_to_jitter[of "[zero_tick, short_tick]" 10 0 5 zero_tick] b l
  have "1 / max 10 (1 / 10000) + 0 - 1 / 10 ^ 15
       \<le> run_waits (RateLimiter_init 10 0) 5 [zero_tick, short_tick] ! Suc 0
          - run_waits (RateLimiter_init 10 0) 5 [zero_tick, short_tick] ! 0" by blast
  moreover have "run_waits (RateLimiter_init 10 0) 5 [zero_tick, short_tick] ! Suc 0
          - run_waits (RateLimiter_init 10 0) 5 [zero_tick, short_tick] ! 0 < 1 / 10"
    unfolding r by simp
  ultimately show ?thesis using j r by blast
qed

text \<open>
  C3, as stated, fails for a rate below 0.0001, with no jitter at all: at one request
  per 20000 seconds the limiter lets two requests start 10000 seconds apart.
\<close>

theorem slow_rate_gap_below_reciprocal:
  "jitter zero_tick = 0
   \<and> run_waits (RateLimiter_init (1 / 20000) 0) 100000 [zero_tick, zero_tick] = [100000, 110000]
   \<and> run_waits (RateLimiter_init (1 / 20000) 0) 100000 [zero_tick, zero_tick] ! 1
       - run_waits (RateLimiter_init (1 / 20000) 0) 100000 [zero_tick, zero_tick] ! 0
       < 1 / (1 / 20000) - jitter zero_tick"
  by (simp add: RateLimiter_init_def wait_def zero_tick_def jitter_def Let_def)


section \<open>Properties of the bulk downloader\<close>

subsection \<open>Looking up the delivery id\<close>

lemma pick_first_None:
  "(pick_first d keys = None) = (\<forall>k \<in> set keys. map_of d k = None \<or> map_of d k = Some JNull)"
  by (induction keys) (auto split: option.splits)

lemma pick_first_Some:
  "pick_first d keys = Some v \<Longrightarrow>
     \<exists>pre k post. keys = pre @ k # post \<and> map_of d k = Some v \<and> v \<noteq> JNull
        \<and> (\<forall>k' \<in> set pre. map_of d k' = None \<or> map_of d k' = Some JNull)"
proof (induction keys)
  case Nil
  then show ?case by simp
next
  case (Cons k keys)
  show ?case
  proof (cases "map_of d k = None \<or> map_of d k = Some JNull")
    case True
    then have "pick_first d keys = Some v" using Cons.prems by (auto split: option.splits)
    from Cons.IH[OF this] obtain pre k' post where
      p: "keys = pre @ k' # post" "map_of d k' = Some v" "v \<noteq> JNull"
      "\<forall>k'' \<in> set pre. map_of d k'' = None \<or> map_of d k'' = Some JNull" by blast
    have "k # keys = (k # pre) @ k' # post" using p(1) by simp
    moreover have "\<forall>k'' \<in> set (k # pre). map_of d k'' = None \<or> map_of d k'' = Some JNull"
      using p(4) True by simp
    ultimately show ?thesis using p(2,3) by blast
  next
    case False
    then have "map_of d k = Some v" "v \<noteq> JNull" using Cons.prems by (auto split: option.splits if_splits)
    then have "k # keys = [] @ k # keys \<and> map_of d k = Some v \<and> v \<noteq> JNull
        \<and> (\<forall>k' \<in> set []. map_of d k' = None \<or> map_of d k' = Some JNull)" by simp
    then show ?thesis by blast
  qed
qed

lemma nested_miss:
  "(\<forall>inner. map_of d nk = Some (JObj inner) \<longrightarrow> find_delivery_id inner = None) \<Longrightarrow>
     nested_delivery_id d (nk # rest) = nested_delivery_id d rest"
  by (auto split: option.splits json.splits)

lemma nested_None:
  "(nested_delivery_id d nks = None) =
     (\<forall>nk \<in> set nks. \<forall>inner. map_of d nk = Some (JObj inner) \<longrightarrow> find_delivery_id inner = None)"
  by (induction nks) (auto split: option.splits json.splits)

text \<open>
  C8. \<open>pick_first\<close> returns nothing exactly when every candidate key is absent or
  null, and otherwise the value of the first candidate that is present and not null;
  \<open>find_delivery_id\<close> tries \<open>id\<close>, \<open>deliveryId\<close>, \<open>delivery_id\<close>, \<open>deliveryID\<close>, \<open>uuid\<close>,
  \<open>key\<close> in that order. An id found at the top level is the result. When the top
  level gives nothing, \<open>main\<close> tries the objects under \<open>delivery\<close>, \<open>meta\<close>, \<open>data\<close> in
  that order, one level deep: an id under \<open>delivery\<close> is the result whatever \<open>meta\<close> and
  \<open>data\<close> hold; an id under \<open>meta\<close> is the result when \<open>delivery\<close> gives none, whatever
  \<open>data\<close> holds; an id under \<open>data\<close> is the result when \<open>delivery\<close> and \<open>meta\<close> give
  none; and there is no id exactly when the top level and the three objects give none.
  The delivery \<open>{"meta": {"id": "X"}}\<close> resolves to \<open>"X"\<close>, an id two levels down is not
  found, and of the ids under \<open>data\<close>, \<open>meta\<close> and \<open>delivery\<close> of one delivery the one
  under \<open>delivery\<close> is taken.
\<close>

theorem delivery_id_lookup:
  "(pick_first d keys = None) = (\<forall>k \<in> set keys. map_of d k = None \<or> map_of d k = Some JNull)
   \<and> (\<forall>v. pick_first d keys = Some v \<longrightarrow>
        (\<exists>pre k post. keys = pre @ k # post \<and> map_of d k = Some v \<and> v \<noteq> JNull
           \<and> (\<forall>k' \<in> set pre. map_of d k' = None \<or> map_of d k' = Some JNull)))
   \<and> find_delivery_id d =
        pick_first d [''id'', ''deliveryId'', ''delivery_id'', ''deliveryID'', ''uuid'', ''key'']
   \<and> (\<forall>v. find_delivery_id d = Some v \<longrightarrow> delivery_id_of d = (Some v, d))
   \<and> (find_delivery_id d = None
        \<and> map_of d ''delivery'' = Some (JObj dl) \<and> find_delivery_id dl = Some y
      \<longrightarrow> delivery_id_of d = (Some y, dl))
   \<and> (find_delivery_id d = None
        \<and> (\<forall>inner. map_of d ''delivery'' = Some (JObj inner) \<longrightarrow> find_delivery_id inner = None)
        \<and> map_of d ''meta'' = Some (JObj m) \<and> find_delivery_id m = Some x
      \<longrightarrow> delivery_id_of d = (Some x, m))
   \<and> (find_delivery_id d = None
        \<and> (\<forall>nk \<in> {''delivery'', ''meta''}. \<forall>inner.
              map_of d nk = Some (JObj inner) \<longrightarrow> find_delivery_id inner = None)
        \<and> map_of d ''data'' = Some (JObj da) \<and> find_delivery_id da = Some z
      \<longrightarrow> delivery_id_of d = (Some z, da))
   \<and> (find_delivery_id d = None
        \<and> (\<forall>nk \<in> {''delivery'', ''meta'', ''data''}. \<forall>inner.
              map_of d nk = Some (JObj inner) \<longrightarrow> find_delivery_id inner = None)
      \<longrightarrow> delivery_id_of d = (None, d))
   \<and> (fst (delivery_id_of d) = None
      \<longrightarrow> find_delivery_id d = None
          \<and> (\<forall>nk \<in> {''delivery'', ''meta'', ''data''}. \<forall>inner.
                map_of d nk = Some (JObj inner) \<longrightarrow> find_delivery_id inner = None))
   \<and> delivery_id_of meta_delivery = (Some (JStr ''X''), [(''id'', JStr ''X'')])
   \<and> delivery_id_of deep_delivery = (None, deep_delivery)
   \<and> delivery_id_of data_delivery = (Some (JStr ''A''), [(''uuid'', JStr ''A'')])
   \<and> delivery_id_of all_nested_delivery = (Some (JStr ''D''), [(''id'', JStr ''D'')])
   \<and> delivery_id_of meta_data_delivery = (Some (JStr ''M''), [(''id'', JStr ''M'')])
   \<and> delivery_id_of top_delivery = (Some (JStr ''U''), top_delivery)"
proof -
  have 1: "delivery_id_of d = (Some v, d)" if "find_delivery_id d = Some v" for v
    using that by (simp add: delivery_id_of_def)
  have 2: "delivery_id_of d = (Some x, m)"
    if "find_delivery_id d = None"
      "\<forall>inner. map_of d ''delivery'' = Some (JObj inner) \<longrightarrow> find_delivery_id inner = None"
      "map_of d ''meta'' = Some (JObj m)" "find_delivery_id m = Some x"
    using that by (auto simp: delivery_id_of_def split: option.splits json.splits)
  have 3: "delivery_id_of d = (None, d)"
    if "find_delivery_id d = None"
      "\<forall>nk \<in> {''delivery'', ''meta'', ''data''}. \<forall>inner.
              map_of d nk = Some (JObj inner) \<longrightarrow> find_delivery_id inner = None"
    using that by (auto simp: delivery_id_of_def split: option.splits json.splits)
  have 4: "delivery_id_of meta_delivery = (Some (JStr ''X''), [(''id'', JStr ''X'')])"
    by (simp add: delivery_id_of_def meta_delivery_def find_delivery_id_def)
  have 5: "delivery_id_of deep_delivery = (None, deep_delivery)"
    by (simp add: delivery_id_of_def deep_delivery_def find_delivery_id_def)
  have 6: "delivery_id_of d = (Some y, dl)"
    if "find_delivery_id d = None" "map_of d ''delivery'' = Some (JObj dl)" "find_delivery_id dl = Some y"
    using that by (simp add: delivery_id_of_def)
  have 7: "delivery_id_of d = (Some z, da)"
    if "find_delivery_id d = None"
      "\<forall>nk \<in> {''delivery'', ''meta''}. \<forall>inner.
              map_of d nk = Some (JObj inner) \<longrightarrow> find_delivery_id inner = None"
      "map_of d ''data'' = Some (JObj da)" "find_delivery_id da = Some z"
  proof -
    have "nested_delivery_id d [''delivery'', ''meta'', ''data''] = nested_delivery_id d [''data'']"
      using that(2) by (simp add: nested_miss del: nested_delivery_id.simps)
    also have "\<dots> = Some (z, da)" using that(3,4) by simp
    finally show ?thesis using that(1) by (simp add: delivery_id_of_def)
  qed
  have 8: "find_delivery_id d = None
          \<and> (\<forall>nk \<in> {''delivery'', ''meta'', ''data''}. \<forall>inner.
                map_of d nk = Some (JObj inner) \<longrightarrow> find_delivery_id inner = None)"
    if n: "fst (delivery_id_of d) = None"
  proof -
    have a: "find_delivery_id d = None"
      using n by (cases "find_delivery_id d") (simp_all add: delivery_id_of_def)
    have "nested_delivery_id d [''delivery'', ''meta'', ''data''] = None"
      using n a by (cases "nested_delivery_id d [''delivery'', ''meta'', ''data'']")
        (auto simp: delivery_id_of_def simp del: nested_delivery_id.simps)
    then show ?thesis using a nested_None[of d "[''delivery'', ''meta'', ''data'']"] by simp
  qed
  have 9: "delivery_id_of data_delivery = (Some (JStr ''A''), [(''uuid'', JStr ''A'')])"
    by (simp add: delivery_id_of_def data_delivery_def find_delivery_id_def)
  have 10: "delivery_id_of all_nested_delivery = (Some (JStr ''D''), [(''id'', JStr ''D'')])"
    by (simp add: delivery_id_of_def all_nested_delivery_def find_delivery_id_def)
  have 11: "delivery_id_of meta_data_delivery = (Some (JStr ''M''), [(''id'', JStr ''M'')])"
    by (simp add: delivery_id_of_def meta_data_delivery_def find_delivery_id_def)
  have 12: "delivery_id_of top_delivery = (Some (JStr ''U''), top_delivery)"
    by (simp add: delivery_id_of_def top_delivery_def find_delivery_id_def)
  have p: "find_delivery_id d =
        pick_first d [''id'', ''deliveryId'', ''delivery_id'', ''deliveryID'', ''uuid'', ''key'']"
    by (simp add: find_delivery_id_def)
  show ?thesis
    using pick_first_None[of d keys] pick_first_Some[of d keys] p 1 2 3 4 5 6 7 8 9 10 11 12
    by blast
qed


theorem delivery_id_lookup_witness:
  "map_of meta_delivery ''id'' = None \<and> map_of meta_delivery ''uuid'' = None
   \<and> pick_first meta_delivery [''id'', ''uuid''] = None
   \<and> find_delivery_id meta_delivery = None
   \<and> map_of meta_delivery ''delivery'' = None
   \<and> map_of meta_delivery ''meta'' = Some (JObj [(''id'', JStr ''X'')])
   \<and> find_delivery_id [(''id'', JStr ''X'')] = Some (JStr ''X'')
   \<and> delivery_id_of meta_delivery = (Some (JStr ''X''), [(''id'', JStr ''X'')])
   \<and> find_delivery_id all_nested_delivery = None
   \<and> map_of all_nested_delivery ''delivery'' = Some (JObj [(''id'', JStr ''D'')])
   \<and> map_of all_nested_delivery ''meta'' = Some (JObj [(''id'', JStr ''M'')])
   \<and> find_delivery_id [(''id'', JStr ''D'')] = Some (JStr ''D'')
   \<and> delivery_id_of all_nested_delivery = (Some (JStr ''D''), [(''id'', JStr ''D'')])
   \<and> find_delivery_id data_delivery = None
   \<and> map_of data_delivery ''delivery'' = None
   \<and> map_of data_delivery ''meta'' = Some (JObj [(''name'', JStr ''M'')])
   \<and> find_delivery_id [(''name'', JStr ''M'')] = None
   \<and> map_of data_delivery ''data'' = Some (JObj [(''uuid'', JStr ''A'')])
   \<and> find_delivery_id [(''uuid'', JStr ''A'')] = Some (JStr ''A'')
   \<and> delivery_id_of data_delivery = (Some (JStr ''A''), [(''uuid'', JStr ''A'')])"
proof -
  have k: "map_of meta_delivery ''id'' = None" "map_of meta_delivery ''uuid'' = None"
    "map_of meta_delivery ''delivery'' = None"
    by (simp_all add: meta_delivery_def)
  have a: "\<forall>k \<in> set [''id'', ''uuid'']. map_of meta_delivery k = None \<or> map_of meta_delivery k = Some JNull"
    using k by simp
  have b: "find_delivery_id meta_delivery = None"
    by (simp add: find_delivery_id_def meta_delivery_def)
  have c: "\<forall>inner. map_of meta_delivery ''delivery'' = Some (JObj inner) \<longrightarrow> find_delivery_id inner = None"
    using k by simp
  have d: "map_of meta_delivery ''meta'' = Some (JObj [(''id'', JStr ''X'')])"
    by (simp add: meta_delivery_def)
  have e: "find_delivery_id [(''id'', JStr ''X'')] = Some (JStr ''X'')"
    by (simp add: find_delivery_id_def)
  from delivery_id_lookup[of meta_delivery "[''id'', ''uuid'']" "[]" JNull "[(''id'', JStr ''X'')]"
      "JStr ''X''" "[]" JNull]
  have m: "pick_first meta_delivery [''id'', ''uuid''] = None
      \<and> delivery_id_of meta_delivery = (Some (JStr ''X''), [(''id'', JStr ''X'')])"
    using a b c d e by blast
  have f: "find_delivery_id all_nested_delivery = None"
    "map_of all_nested_delivery ''delivery'' = Some (JObj [(''id'', JStr ''D'')])"
    "map_of all_nested_delivery ''meta'' = Some (JObj [(''id'', JStr ''M'')])"
    "find_delivery_id [(''id'', JStr ''D'')] = Some (JStr ''D'')"
    by (simp_all add: find_delivery_id_def all_nested_delivery_def)
  from delivery_id_lookup[of all_nested_delivery "[]" "[(''id'', JStr ''D'')]" "JStr ''D''" "[]" JNull
      "[]" JNull]
  have n: "delivery_id_of all_nested_delivery = (Some (JStr ''D''), [(''id'', JStr ''D'')])"
    using f(1,2,4) by blast
  have g: "find_delivery_id data_delivery = None"
    "map_of data_delivery ''delivery'' = None"
    "map_of data_delivery ''meta'' = Some (JObj [(''name'', JStr ''M'')])"
    "find_delivery_id [(''name'', JStr ''M'')] = None"
    "map_of data_delivery ''data'' = Some (JObj [(''uuid'', JStr ''A'')])"
    "find_delivery_id [(''uuid'', JStr ''A'')] = Some (JStr ''A'')"
    by (simp_all add: find_delivery_id_def data_delivery_def)
  have h: "\<forall>nk \<in> {''delivery'', ''meta''}. \<forall>inner.
              map_of data_delivery nk = Some (JObj inner) \<longrightarrow> find_delivery_id inner = None"
    using g(2,3,4) by simp
  from delivery_id_lookup[of data_delivery "[]" "[]" JNull "[]" JNull "[(''uuid'', JStr ''A'')]" "JStr ''A''"]
  have o: "delivery_id_of data_delivery = (Some (JStr ''A''), [(''uuid'', JStr ''A'')])"
    using g(1,5,6) h by blast
  show ?thesis using k b d e m f n g o by blast
qed

subsection \<open>Verifying a file against the remote size\<close>

lemma frame_nap:
  "fs (nap s w) = fs w" "history (nap s w) = history w" "head_env (nap s w) = head_env w"
  "head_calls (nap s w) = head_calls w" "stream_env (nap s w) = stream_env w"
  "stream_calls (nap s w) = stream_calls w"
  by (simp_all add: nap_def)

lemma head_loop_frame:
  "fs (snd (head_loop url b is w)) = fs w \<and> history (snd (head_loop url b is w)) = history w
   \<and> head_env (snd (head_loop url b is w)) = head_env w
   \<and> stream_env (snd (head_loop url b is w)) = stream_env w
   \<and> stream_calls (snd (head_loop url b is w)) = stream_calls w"
proof (induction "is" arbitrary: w)
  case Nil
  then show ?case by simp
next
  case (Cons i "is")
  let ?w = "nap (b * 2 ^ i) (w\<lparr>head_calls := Suc (head_calls w)\<rparr>)"
  have "fs ?w = fs w" "history ?w = history w" "head_env ?w = head_env w"
    "stream_env ?w = stream_env w" "stream_calls ?w = stream_calls w"
    by (simp_all add: frame_nap)
  then show ?case using Cons.IH[of ?w]
    by (simp add: Let_def split: head_reply.splits content_length.splits)
qed

lemma head_loop_fail_step:
  assumes "head_attempt_fails (head_env w (head_calls w) url)"
  shows "head_loop url b (i # is) w =
           head_loop url b is (nap (b * 2 ^ i) (w\<lparr>head_calls := Suc (head_calls w)\<rparr>))"
  using assms by (auto simp: Let_def split: head_reply.splits content_length.splits)

lemma head_loop_all_fail:
  assumes "\<forall>j < length is. head_attempt_fails (head_env w (head_calls w + j) url)"
  shows "fst (head_loop url b is w) = None
       \<and> head_calls (snd (head_loop url b is w)) = head_calls w + length is"
  using assms
proof (induction "is" arbitrary: w)
  case Nil
  then show ?case by simp
next
  case (Cons i "is")
  let ?w = "nap (b * 2 ^ i) (w\<lparr>head_calls := Suc (head_calls w)\<rparr>)"
  have f0: "head_attempt_fails (head_env w (head_calls w) url)" using Cons.prems by force
  have e: "head_env ?w = head_env w" "head_calls ?w = Suc (head_calls w)" by (simp_all add: frame_nap)
  have "\<forall>j < length is. head_attempt_fails (head_env ?w (head_calls ?w + j) url)"
  proof (intro allI impI)
    fix j assume "j < length is"
    then have "head_attempt_fails (head_env w (head_calls w + Suc j) url)" using Cons.prems by force
    then show "head_attempt_fails (head_env ?w (head_calls ?w + j) url)" unfolding e by simp
  qed
  from Cons.IH[OF this] show ?case unfolding head_loop_fail_step[OF f0] e by simp
qed

lemma head_loop_first_answer:
  assumes "k < length is"
    and "\<forall>j < k. head_attempt_fails (head_env w (head_calls w + j) url)"
    and "head_env w (head_calls w + k) url = HeadResponse st cl"
    and "\<not> (400 \<le> st \<and> st < 600)" and "cl \<noteq> Malformed"
  shows "fst (head_loop url b is w) = (case cl of Parsed n \<Rightarrow> Some n | _ \<Rightarrow> None)
       \<and> head_calls (snd (head_loop url b is w)) = head_calls w + Suc k"
  using assms
proof (induction "is" arbitrary: w k)
  case Nil
  then show ?case by simp
next
  case (Cons i "is")
  show ?case
  proof (cases k)
    case 0
    then show ?thesis using Cons.prems(3,4,5)
      by (auto simp: Let_def split: content_length.splits)
  next
    case (Suc k')
    let ?w = "nap (b * 2 ^ i) (w\<lparr>head_calls := Suc (head_calls w)\<rparr>)"
    have f0: "head_attempt_fails (head_env w (head_calls w) url)" using Cons.prems(2) Suc by force
    have e: "head_env ?w = head_env w" "head_calls ?w = Suc (head_calls w)" by (simp_all add: frame_nap)
    have 1: "k' < length is" using Cons.prems(1) Suc by simp
    have 2: "\<forall>j < k'. head_attempt_fails (head_env ?w (head_calls ?w + j) url)"
    proof (intro allI impI)
      fix j assume "j < k'"
      then have "head_attempt_fails (head_env w (head_calls w + Suc j) url)" using Cons.prems(2) Suc by force
      then show "head_attempt_fails (head_env ?w (head_calls ?w + j) url)" unfolding e by simp
    qed
    have 3: "head_env ?w (head_calls ?w + k') url = HeadResponse st cl"
      using Cons.prems(3) Suc unfolding e by simp
    from Cons.IH[OF 1 2 3 Cons.prems(4,5)] show ?thesis
      unfolding head_loop_fail_step[OF f0] e Suc by simp
  qed
qed

lemma upt04: "[0..<4] = [0, 1, 2, 3::nat]"
  by (simp add: upt_rec)

text \<open>
  C6. \<open>is_fully_downloaded\<close> is true exactly when the path is a regular file of
  size greater than zero and \<open>head_content_length\<close> returns that size. The probe
  returns nothing when its four attempts all fail, or when the first attempt that
  does not fail has no \<open>Content-Length\<close>; it returns the length of the first attempt
  that does not fail otherwise. When it returns nothing the file is not complete.
  The check changes no file.
\<close>

theorem fully_downloaded_iff_size_matches:
  "fst (is_fully_downloaded path url w) =
     (\<exists>c. fs w path = Some (RegFile c) \<and> 0 < length c
          \<and> fst (head_content_length url 4 (6 / 10) w) = Some (int (length c)))
   \<and> ((\<forall>j < 4. head_attempt_fails (head_env w (head_calls w + j) url)) \<longrightarrow>
        fst (head_content_length url 4 (6 / 10) w) = None
        \<and> head_calls (snd (head_content_length url 4 (6 / 10) w)) = head_calls w + 4)
   \<and> (k < 4 \<and> (\<forall>j < k. head_attempt_fails (head_env w (head_calls w + j) url))
        \<and> head_env w (head_calls w + k) url = HeadResponse st Absent \<and> \<not> (400 \<le> st \<and> st < 600) \<longrightarrow>
        fst (head_content_length url 4 (6 / 10) w) = None)
   \<and> (k < 4 \<and> (\<forall>j < k. head_attempt_fails (head_env w (head_calls w + j) url))
        \<and> head_env w (head_calls w + k) url = HeadResponse st (Parsed n) \<and> \<not> (400 \<le> st \<and> st < 600) \<longrightarrow>
        fst (head_content_length url 4 (6 / 10) w) = Some n)
   \<and> (fst (head_content_length url 4 (6 / 10) w) = None \<longrightarrow> \<not> fst (is_fully_downloaded path url w))
   \<and> fs (snd (is_fully_downloaded path url w)) = fs w"
proof -
  have len: "length [0..<4] = 4" by simp
  have 1: "fst (is_fully_downloaded path url w) =
     (\<exists>c. fs w path = Some (RegFile c) \<and> 0 < length c
          \<and> fst (head_content_length url 4 (6 / 10) w) = Some (int (length c)))"
    by (cases "head_content_length url 4 (6 / 10) w")
       (auto simp: is_fully_downloaded_def split: option.splits node.splits)
  have 2: "fst (head_content_length url 4 (6 / 10) w) = None
        \<and> head_calls (snd (head_content_length url 4 (6 / 10) w)) = head_calls w + 4"
    if "\<forall>j < 4. head_attempt_fails (head_env w (head_calls w + j) url)"
    using head_loop_all_fail[of "[0..<4]" w url "6 / 10"] that
    unfolding head_content_length_def len by simp
  have 3: "fst (head_content_length url 4 (6 / 10) w) = None"
    if "k < 4" "\<forall>j < k. head_attempt_fails (head_env w (head_calls w + j) url)"
      "head_env w (head_calls w + k) url = HeadResponse st Absent" "\<not> (400 \<le> st \<and> st < 600)"
    using head_loop_first_answer[of k "[0..<4]" w url st Absent "6 / 10"] that
    unfolding head_content_length_def len by simp
  have 4: "fst (head_content_length url 4 (6 / 10) w) = Some n"
    if "k < 4" "\<forall>j < k. head_attempt_fails (head_env w (head_calls w + j) url)"
      "head_env w (head_calls w + k) url = HeadResponse st (Parsed n)" "\<not> (400 \<le> st \<and> st < 600)"
    using head_loop_first_answer[of k "[0..<4]" w url st "Parsed n" "6 / 10"] that
    unfolding head_content_length_def len by simp
  have 5: "\<not> fst (is_fully_downloaded path url w)"
    if "fst (head_content_length url 4 (6 / 10) w) = None"
    using that 1 by simp
  have 6: "fs (snd (is_fully_downloaded path url w)) = fs w"
    using head_loop_frame[of url "6 / 10" "[0..<4]" w]
    by (cases "head_content_length url 4 (6 / 10) w")
       (auto simp: is_fully_downloaded_def head_content_length_def split: option.splits node.splits)
  show ?thesis using 1 2 3 4 5 6 by blast
qed


theorem fully_downloaded_iff_size_matches_witness:
  "(1::nat) < 4
   \<and> head_attempt_fails
        (head_env (fresh_bulk hello_fs head_flaky stream_none)
           (head_calls (fresh_bulk hello_fs head_flaky stream_none) + 0) ''u'')
   \<and> head_env (fresh_bulk hello_fs head_flaky stream_none)
        (head_calls (fresh_bulk hello_fs head_flaky stream_none) + 1) ''u'' = HeadResponse 200 (Parsed 5)
   \<and> fs (fresh_bulk hello_fs head_flaky stream_none) archive = Some (RegFile ''hello'')
   \<and> fst (head_content_length ''u'' 4 (6 / 10) (fresh_bulk hello_fs head_flaky stream_none)) = Some 5
   \<and> fst (is_fully_downloaded archive ''u'' (fresh_bulk hello_fs head_flaky stream_none))
   \<and> head_attempt_fails (head_down 0 ''u'') \<and> head_attempt_fails (head_down 1 ''u'')
   \<and> head_attempt_fails (head_down 2 ''u'') \<and> head_attempt_fails (head_down 3 ''u'')
   \<and> head_env (fresh_bulk hello_fs head_down stream_none) = head_down
   \<and> head_calls (fresh_bulk hello_fs head_down stream_none) = 0
   \<and> fst (head_content_length ''u'' 4 (6 / 10) (fresh_bulk hello_fs head_down stream_none)) = None
   \<and> \<not> fst (is_fully_downloaded archive ''u'' (fresh_bulk hello_fs head_down stream_none))"
proof -
  let ?w = "fresh_bulk hello_fs head_flaky stream_none"
  let ?v = "fresh_bulk hello_fs head_down stream_none"
  have a0: "head_attempt_fails (head_env ?w (head_calls ?w + 0) ''u'')"
    by (simp add: fresh_bulk_def head_flaky_def)
  have a: "\<forall>j < 1. head_attempt_fails (head_env ?w (head_calls ?w + j) ''u'')"
    using a0 by simp
  have b: "head_env ?w (head_calls ?w + 1) ''u'' = HeadResponse 200 (Parsed 5)"
    by (simp add: fresh_bulk_def head_flaky_def)
  have c: "\<not> (400 \<le> (200::nat) \<and> (200::nat) < 600)" by simp
  have f: "fs ?w archive = Some (RegFile ''hello'')"
    by (simp add: fresh_bulk_def hello_fs_def)
  have e: "head_env ?v = head_down" "head_calls ?v = 0" by (simp_all add: fresh_bulk_def)
  have d0: "head_attempt_fails (head_down 0 ''u'')" "head_attempt_fails (head_down 1 ''u'')"
    "head_attempt_fails (head_down 2 ''u'')" "head_attempt_fails (head_down 3 ''u'')"
    by (simp_all add: head_down_def)
  have d: "\<forall>j < 4. head_attempt_fails (head_env ?v (head_calls ?v + j) ''u'')"
    unfolding e by (simp add: head_down_def)
  from fully_downloaded_iff_size_matches[of archive "''u''" ?w 1 200 5] a b c f
  have 1: "fst (head_content_length ''u'' 4 (6 / 10) ?w) = Some 5
      \<and> fst (is_fully_downloaded archive ''u'' ?w)" by simp
  from fully_downloaded_iff_size_matches[of archive "''u''" ?v 0 0 0] d
  have 2: "fst (head_content_length ''u'' 4 (6 / 10) ?v) = None
      \<and> \<not> fst (is_fully_downloaded archive ''u'' ?v)" by blast
  show ?thesis using a0 b f e d0 1 2 by simp
qed

subsection \<open>The streamed download\<close>

lemma rfind_less: "rfind c s = Some i \<Longrightarrow> i < length s"
  by (induction s arbitrary: i) (auto split: option.splits if_splits)

lemma suffix_is_tail: "take (length nm - length (suffix nm)) nm @ suffix nm = nm"
proof (cases "rfind CHR ''.'' nm")
  case None
  then show ?thesis by (simp add: suffix_def)
next
  case (Some i)
  have "i < length nm" using rfind_less[OF Some] .
  then show ?thesis using Some by (simp add: suffix_def min_def)
qed

lemma part_path:
  assumes "with_suffix out (suffix (name out) @ ''.part'') = Inr tmp"
  shows "tmp = out\<lparr>name := name out @ ''.part''\<rparr>"
proof (cases "suffix (name out) = []")
  case True
  then show ?thesis using assms by (auto simp: with_suffix_def split: if_splits)
next
  case False
  have "take (length (name out) - length (suffix (name out))) (name out) @ suffix (name out) @ ''.part''
        = name out @ ''.part''"
    using suffix_is_tail[of "name out"] by (metis append.assoc)
  then show ?thesis using assms False by (auto simp: with_suffix_def split: if_splits)
qed

lemma part_path_differs: "out\<lparr>name := name out @ ''.part''\<rparr> \<noteq> out"
proof
  assume "out\<lparr>name := name out @ ''.part''\<rparr> = out"
  then have "name (out\<lparr>name := name out @ ''.part''\<rparr>) = name out" by simp
  then show False by simp
qed

lemma write_chunks_spec:
  assumes "fs w tmp = Some (RegFile c0)"
  shows "fst (write_chunks tmp bs n w) = n + length (concat bs)
       \<and> fs (snd (write_chunks tmp bs n w)) = (fs w)(tmp \<mapsto> RegFile (c0 @ concat bs))
       \<and> (\<exists>hs. history (snd (write_chunks tmp bs n w)) = history w @ hs
              \<and> (\<forall>s \<in> set hs. \<forall>p. p \<noteq> tmp \<longrightarrow> s p = fs w p))
       \<and> stream_calls (snd (write_chunks tmp bs n w)) = stream_calls w"
  using assms
proof (induction bs arbitrary: n w c0)
  case Nil
  then show ?case by (auto simp: fun_upd_idem)
next
  case (Cons b bs)
  show ?case
  proof (cases "b = []")
    case True
    then show ?thesis using Cons.IH[OF Cons.prems, of n] by simp
  next
    case False
    let ?f = "(fs w)(tmp \<mapsto> RegFile (c0 @ b))"
    let ?w = "set_fs ?f w"
    have s: "write_chunks tmp (b # bs) n w = write_chunks tmp bs (n + length b) ?w"
      using False Cons.prems by simp
    have t: "fs ?w tmp = Some (RegFile (c0 @ b))" by (simp add: set_fs_def)
    have h: "history ?w = history w @ [?f]" "fs ?w = ?f" "stream_calls ?w = stream_calls w"
      by (simp_all add: set_fs_def)
    from Cons.IH[OF t, of "n + length b"] obtain hs where
      1: "fst (write_chunks tmp bs (n + length b) ?w) = n + length b + length (concat bs)"
      and 2: "fs (snd (write_chunks tmp bs (n + length b) ?w)) = (fs ?w)(tmp \<mapsto> RegFile ((c0 @ b) @ concat bs))"
      and 3: "history (snd (write_chunks tmp bs (n + length b) ?w)) = history ?w @ hs"
      and 4: "\<forall>s \<in> set hs. \<forall>p. p \<noteq> tmp \<longrightarrow> s p = fs ?w p"
      and 5: "stream_calls (snd (write_chunks tmp bs (n + length b) ?w)) = stream_calls ?w"
      by blast
    have h3: "history (snd (write_chunks tmp bs (n + length b) ?w)) = history w @ (?f # hs)"
      using 3 h(1) by simp
    have h4: "\<forall>s \<in> set (?f # hs). \<forall>p. p \<noteq> tmp \<longrightarrow> s p = fs w p"
      using 4 h(2) by auto
    show ?thesis using 1 2 h3 h4 5 h unfolding s by (auto simp del: write_chunks.simps)
  qed
qed

lemma download_stream_spec:
  "\<exists>hs. history (snd (download_stream url out w)) = history w @ hs
     \<and> ((\<exists>e. fst (download_stream url out w) = Inl e
            \<and> (\<forall>s \<in> set hs. \<forall>p. p \<noteq> out\<lparr>name := name out @ ''.part''\<rparr> \<longrightarrow> s p = fs w p)
            \<and> (\<forall>p. p \<noteq> out\<lparr>name := name out @ ''.part''\<rparr> \<longrightarrow> fs (snd (download_stream url out w)) p = fs w p))
        \<or> (\<exists>st chunks pre. stream_env w (stream_calls w) url = StreamResponse st chunks True
            \<and> fst (download_stream url out w) = Inr (length (concat chunks))
            \<and> hs = pre @ [fs (snd (download_stream url out w))]
            \<and> (\<forall>s \<in> set pre. \<forall>p. p \<noteq> out\<lparr>name := name out @ ''.part''\<rparr> \<longrightarrow> s p = fs w p)
            \<and> fs (snd (download_stream url out w))
                = (fs w)(out \<mapsto> RegFile (concat chunks), out\<lparr>name := name out @ ''.part''\<rparr> := None)))"
proof (cases "with_suffix out (suffix (name out) @ ''.part'')")
  case (Inl e)
  then have "download_stream url out w = (Inl e, w)" by (simp add: download_stream_def Let_def)
  then show ?thesis by simp
next
  case (Inr tmp)
  let ?tmp = "out\<lparr>name := name out @ ''.part''\<rparr>"
  have tmp: "tmp = ?tmp" using part_path[OF Inr] .
  have ne: "?tmp \<noteq> out" by (rule part_path_differs)
  let ?w1 = "w\<lparr>stream_calls := Suc (stream_calls w)\<rparr>"
  have w1: "fs ?w1 = fs w" "history ?w1 = history w" by simp_all
  show ?thesis
  proof (cases "stream_env w (stream_calls w) url")
    case StreamRaises
    then have "download_stream url out w = (Inl ConnectionError, ?w1)"
      using Inr by (simp add: download_stream_def Let_def)
    then show ?thesis by simp
  next
    case (StreamResponse st chunks finished)
    show ?thesis
    proof (cases "400 \<le> st \<and> st < 600")
      case True
      then have "download_stream url out w = (Inl (HTTPError st), ?w1)"
        using Inr StreamResponse by (simp add: download_stream_def Let_def)
      then show ?thesis by simp
    next
      case ok: False
      show ?thesis
      proof (cases "fs w ?tmp = Some Directory")
        case True
        then have "download_stream url out w = (Inl OSError, ?w1)"
          using Inr StreamResponse ok tmp by (simp add: download_stream_def Let_def)
        then show ?thesis by simp
      next
        case nd: False
        let ?f0 = "(fs w)(?tmp \<mapsto> RegFile [])"
        let ?w2 = "set_fs ?f0 ?w1"
        have w2: "fs ?w2 = ?f0" "history ?w2 = history w @ [?f0]" by (simp_all add: set_fs_def)
        have t: "fs ?w2 ?tmp = Some (RegFile [])" by (simp add: set_fs_def)
        obtain n w3 where wc: "write_chunks ?tmp chunks 0 ?w2 = (n, w3)" by force
        from write_chunks_spec[OF t, of chunks 0] wc obtain hs where
          n: "n = length (concat chunks)"
          and f3: "fs w3 = (fs ?w2)(?tmp \<mapsto> RegFile (concat chunks))"
          and h3: "history w3 = history ?w2 @ hs"
          and i3: "\<forall>s \<in> set hs. \<forall>p. p \<noteq> ?tmp \<longrightarrow> s p = fs ?w2 p"
          by auto
        have f3': "fs w3 = (fs w)(?tmp \<mapsto> RegFile (concat chunks))" using f3 w2(1) by simp
        have h3': "history w3 = history w @ (?f0 # hs)" using h3 w2(2) by simp
        have i3': "\<forall>s \<in> set (?f0 # hs). \<forall>p. p \<noteq> ?tmp \<longrightarrow> s p = fs w p"
          using i3 w2(1) by auto
        have o3: "fs w3 out = fs w out" using f3' ne by simp
        have body: "download_stream url out w =
            (if \<not> finished then (Inl ConnectionError, w3)
             else if fs w3 out = Some Directory then (Inl OSError, w3)
             else (Inr n, replace_path ?tmp out w3))"
          using Inr StreamResponse ok nd tmp wc by (simp add: download_stream_def Let_def)
        show ?thesis
        proof (cases "\<not> finished \<or> fs w3 out = Some Directory")
          case True
          then have "\<exists>e. download_stream url out w = (Inl e, w3)"
            unfolding body by (cases finished) auto
          then obtain e where "download_stream url out w = (Inl e, w3)" by blast
          then show ?thesis using h3' i3' f3' by auto
        next
          case False
          then have d: "download_stream url out w = (Inr n, replace_path ?tmp out w3)"
            and fin: "finished" using body by auto
          let ?g = "(fs w)(out \<mapsto> RegFile (concat chunks), ?tmp := None)"
          have g: "(fs w3)(out := fs w3 ?tmp, ?tmp := None) = ?g"
            using ne unfolding f3' by (auto simp: fun_eq_iff)
          have r: "fs (replace_path ?tmp out w3) = ?g"
            "history (replace_path ?tmp out w3) = history w @ ((?f0 # hs) @ [?g])"
            using g h3' by (simp_all add: replace_path_def set_fs_def)
          have "stream_env w (stream_calls w) url = StreamResponse st chunks True
            \<and> fst (download_stream url out w) = Inr (length (concat chunks))
            \<and> (?f0 # hs) @ [?g] = (?f0 # hs) @ [fs (snd (download_stream url out w))]
            \<and> (\<forall>s \<in> set (?f0 # hs). \<forall>p. p \<noteq> ?tmp \<longrightarrow> s p = fs w p)
            \<and> fs (snd (download_stream url out w)) = ?g"
            using StreamResponse fin d n r(1) i3' by simp
          moreover have "history (snd (download_stream url out w)) = history w @ ((?f0 # hs) @ [?g])"
            using d r(2) by simp
          ultimately show ?thesis by blast
        qed
      qed
    qed
  qed
qed


text \<open>
  C7. Every state the file system goes through during \<open>download_stream\<close> shows at
  the final path what was there before the call, except the last state of a call that
  returns: there the final path holds all the bytes of a stream that ended cleanly,
  put there by the rename. Every state before that one differs from the initial one
  only at the sibling path with \<open>.part\<close> appended to the name. A call that raises (the
  stream broke, the status was an error) leaves the final path as it was. In \<open>main\<close>
  the download starts after \<open>unlink\<close>, so with nothing at the final path: an observer
  sees nothing there, or the whole file.
\<close>

theorem partial_file_never_at_final_path:
  "\<exists>hs. history (snd (download_stream url out w)) = history w @ hs
     \<and> (\<forall>s \<in> set hs. s out = fs w out \<or>
          (s = fs (snd (download_stream url out w)) \<and>
           (\<exists>st chunks. stream_env w (stream_calls w) url = StreamResponse st chunks True
               \<and> fst (download_stream url out w) = Inr (length (concat chunks))
               \<and> s out = Some (RegFile (concat chunks)))))
     \<and> (\<forall>s \<in> set (butlast hs). \<forall>p. p \<noteq> out\<lparr>name := name out @ ''.part''\<rparr> \<longrightarrow> s p = fs w p)
     \<and> (\<forall>e. fst (download_stream url out w) = Inl e \<longrightarrow>
          fs (snd (download_stream url out w)) out = fs w out \<and> (\<forall>s \<in> set hs. s out = fs w out))
     \<and> (\<forall>w0. unlink_stale out w0 = Inr w \<longrightarrow> fs w out = None)"
proof -
  let ?tmp = "out\<lparr>name := name out @ ''.part''\<rparr>"
  let ?d = "download_stream url out w"
  have ne: "out \<noteq> ?tmp" using part_path_differs[of out] by simp
  have u: "fs w out = None" if "unlink_stale out w0 = Inr w" for w0
    using that by (auto simp: unlink_stale_def set_fs_def split: option.splits node.splits)
  from download_stream_spec[of url out w] obtain hs where
    h: "history (snd ?d) = history w @ hs"
    and c: "(\<exists>e. fst ?d = Inl e
            \<and> (\<forall>s \<in> set hs. \<forall>p. p \<noteq> ?tmp \<longrightarrow> s p = fs w p)
            \<and> (\<forall>p. p \<noteq> ?tmp \<longrightarrow> fs (snd ?d) p = fs w p))
        \<or> (\<exists>st chunks pre. stream_env w (stream_calls w) url = StreamResponse st chunks True
            \<and> fst ?d = Inr (length (concat chunks))
            \<and> hs = pre @ [fs (snd ?d)]
            \<and> (\<forall>s \<in> set pre. \<forall>p. p \<noteq> ?tmp \<longrightarrow> s p = fs w p)
            \<and> fs (snd ?d) = (fs w)(out \<mapsto> RegFile (concat chunks), ?tmp := None))"
    by blast
  from c show ?thesis
  proof
    assume "\<exists>e. fst ?d = Inl e
            \<and> (\<forall>s \<in> set hs. \<forall>p. p \<noteq> ?tmp \<longrightarrow> s p = fs w p)
            \<and> (\<forall>p. p \<noteq> ?tmp \<longrightarrow> fs (snd ?d) p = fs w p)"
    then obtain e where e: "fst ?d = Inl e"
      and a: "\<forall>s \<in> set hs. \<forall>p. p \<noteq> ?tmp \<longrightarrow> s p = fs w p"
      and b: "\<forall>p. p \<noteq> ?tmp \<longrightarrow> fs (snd ?d) p = fs w p" by blast
    have 1: "\<forall>s \<in> set hs. s out = fs w out" using a ne by blast
    have 2: "\<forall>s \<in> set (butlast hs). \<forall>p. p \<noteq> ?tmp \<longrightarrow> s p = fs w p"
      using a by (meson in_set_butlastD)
    have 3: "fs (snd ?d) out = fs w out" using b ne by blast
    show ?thesis using h 1 2 3 u by blast
  next
    assume "\<exists>st chunks pre. stream_env w (stream_calls w) url = StreamResponse st chunks True
            \<and> fst ?d = Inr (length (concat chunks))
            \<and> hs = pre @ [fs (snd ?d)]
            \<and> (\<forall>s \<in> set pre. \<forall>p. p \<noteq> ?tmp \<longrightarrow> s p = fs w p)
            \<and> fs (snd ?d) = (fs w)(out \<mapsto> RegFile (concat chunks), ?tmp := None)"
    then obtain st chunks pre where
      r: "stream_env w (stream_calls w) url = StreamResponse st chunks True"
      and x: "fst ?d = Inr (length (concat chunks))"
      and hs: "hs = pre @ [fs (snd ?d)]"
      and a: "\<forall>s \<in> set pre. \<forall>p. p \<noteq> ?tmp \<longrightarrow> s p = fs w p"
      and g: "fs (snd ?d) = (fs w)(out \<mapsto> RegFile (concat chunks), ?tmp := None)" by blast
    have o: "fs (snd ?d) out = Some (RegFile (concat chunks))" using g ne by simp
    have 1: "\<forall>s \<in> set hs. s out = fs w out \<or>
          (s = fs (snd ?d) \<and>
           (\<exists>st chunks. stream_env w (stream_calls w) url = StreamResponse st chunks True
               \<and> fst ?d = Inr (length (concat chunks))
               \<and> s out = Some (RegFile (concat chunks))))"
    proof
      fix s assume "s \<in> set hs"
      then consider "s \<in> set pre" | "s = fs (snd ?d)" using hs by auto
      then show "s out = fs w out \<or>
          (s = fs (snd ?d) \<and>
           (\<exists>st chunks. stream_env w (stream_calls w) url = StreamResponse st chunks True
               \<and> fst ?d = Inr (length (concat chunks))
               \<and> s out = Some (RegFile (concat chunks))))"
      proof cases
        case 1
        then show ?thesis using a ne by blast
      next
        case 2
        then show ?thesis using r x o by blast
      qed
    qed
    have 2: "\<forall>s \<in> set (butlast hs). \<forall>p. p \<noteq> ?tmp \<longrightarrow> s p = fs w p"
      using a hs by simp
    have 3: "\<forall>e. fst ?d \<noteq> Inl e" using x by simp
    show ?thesis using h 1 2 3 u by blast
  qed
qed

lemmas bulk_eval = download_stream_def with_suffix_def suffix_def archive_def fresh_bulk_def
  stream_broken_def stream_whole_def set_fs_def replace_path_def unlink_stale_def Let_def

theorem partial_file_never_at_final_path_witness:
  "unlink_stale archive (fresh_bulk Map.empty head_down stream_broken)
     = Inr (fresh_bulk Map.empty head_down stream_broken)
   \<and> fs (fresh_bulk Map.empty head_down stream_broken) archive = None
   \<and> fst (download_stream ''u'' archive (fresh_bulk Map.empty head_down stream_broken)) = Inl ConnectionError
   \<and> fs (snd (download_stream ''u'' archive (fresh_bulk Map.empty head_down stream_broken))) archive = None
   \<and> fst (download_stream ''u'' archive (fresh_bulk Map.empty head_down stream_whole)) = Inr 4
   \<and> fs (snd (download_stream ''u'' archive (fresh_bulk Map.empty head_down stream_whole))) archive
       = Some (RegFile ''abcd'')"
proof -
  let ?b = "fresh_bulk Map.empty head_down stream_broken"
  let ?g = "fresh_bulk Map.empty head_down stream_whole"
  have u: "unlink_stale archive ?b = Inr ?b" by (simp add: unlink_stale_def fresh_bulk_def)
  have x: "fst (download_stream ''u'' archive ?b) = Inl ConnectionError" by (simp add: bulk_eval)
  have y: "fst (download_stream ''u'' archive ?g) = Inr 4
     \<and> fs (snd (download_stream ''u'' archive ?g)) archive = Some (RegFile ''abcd'')"
    by (simp add: bulk_eval)
  from partial_file_never_at_final_path[of "''u''" archive ?b] u x
  have "fs ?b archive = None"
    "fs (snd (download_stream ''u'' archive ?b)) archive = fs ?b archive" by blast+
  then show ?thesis using u x y by simp
qed


end
